theory Spec2Isabelle
  imports Complex_Main "HOL-Library.AList" "HOL-Library.Sublist" "HOL-Library.Multiset"
begin

section \<open>Data model\<close>

text \<open>
  The engagement analysis works on a closed batch of chat messages. A JavaScript number is
  modelled by an exact rational (\<open>rat\<close>), or by \<open>nat\<close>/\<open>int\<close> where the source only ever
  holds a count or a rounded value; the rounding error of the double arithmetic is not
  modelled. A timestamp is modelled by the value the source always reads from it,
  \<open>new Date(timestamp).getTime()\<close>: the instant in milliseconds, an \<open>int\<close> (the input
  contract promises timestamps that parse). A string is a list of ASCII characters.
  \<open>ChatMessage\<close> keeps the fields that the analysis reads. Field names follow the
  interfaces of the source; fields of the derived records carry a short prefix, and the
  message identifier is \<open>msg_id\<close>.
\<close>

record ChatMessage =
  msg_id :: string
  author :: string
  message :: string
  timestamp :: int
  profileImageUrl :: string
  badges :: "string list option"

record Answer =
  ans_messageId :: string
  ans_author :: string
  ans_message :: string
  ans_timestamp :: int
  responseTimeSeconds :: rat

record HostQuestion =
  q_messageId :: string
  q_author :: string
  question :: string
  q_timestamp :: int
  answers :: "Answer list"
  wasAnswered :: bool

record QuestionAnswerer =
  qa_author :: string
  qa_profileImageUrl :: string
  questionsAnswered :: nat
  averageResponseTime :: rat
  helpfulnessScore :: int

record AnswererStats =
  answersCount :: nat
  totalResponseTime :: rat
  respondentMessages :: nat

section \<open>JavaScript primitives\<close>

text \<open>\<open>Math.round\<close> rounds to the nearest integer, halves towards plus infinity.\<close>

definition Math_round :: "rat \<Rightarrow> int" where
  "Math_round x = \<lfloor>x + 1 / 2\<rfloor>"

text \<open>\<open>Array.prototype.sort\<close> with a comparator \<open>key a - key b\<close> is a stable sort by
  that key; \<open>sort_key\<close> is the stable insertion sort of the list library.\<close>

definition sortAscBy :: "('a \<Rightarrow> 'k::linorder) \<Rightarrow> 'a list \<Rightarrow> 'a list" where
  "sortAscBy f xs = sort_key f xs"

definition sortDescBy :: "('a \<Rightarrow> int) \<Rightarrow> 'a list \<Rightarrow> 'a list" where
  "sortDescBy f xs = sort_key (\<lambda>x. - f x) xs"

text \<open>\<open>xs.slice(a, b)\<close> and \<open>xs.slice(a)\<close> for non-negative bounds.\<close>

definition slice :: "nat \<Rightarrow> nat \<Rightarrow> 'a list \<Rightarrow> 'a list" where
  "slice a b xs = take (b - a) (drop a xs)"

definition sliceFrom :: "nat \<Rightarrow> 'a list \<Rightarrow> 'a list" where
  "sliceFrom a xs = drop a xs"

definition lowerChar :: "char \<Rightarrow> char" where
  "lowerChar c = (let n = (of_char c :: nat) in if 65 \<le> n \<and> n \<le> 90 then char_of (n + 32) else c)"

definition toLowerCase :: "string \<Rightarrow> string" where
  "toLowerCase s = map lowerChar s"

definition isSpace :: "char \<Rightarrow> bool" where
  "isSpace c = ((of_char c :: nat) \<in> {9, 10, 11, 12, 13, 32})"

definition trim :: "string \<Rightarrow> string" where
  "trim s = rev (dropWhile isSpace (rev (dropWhile isSpace s)))"

definition startsWith :: "string \<Rightarrow> string \<Rightarrow> bool" where
  "startsWith s p = prefix p s"

definition includesStr :: "string \<Rightarrow> string \<Rightarrow> bool" where
  "includesStr s p = sublist p s"

section \<open>Question and answer extraction\<close>

text \<open>\<open>detectQuestions\<close>: texts shorter than five characters are no questions; a question
  mark anywhere makes one; otherwise the trimmed lower-case text has to start with one of the
  question words followed by a blank.\<close>

definition questionWords :: "string list" where
  "questionWords = [''what'', ''how'', ''why'', ''when'', ''where'', ''who'', ''can'',
     ''could'', ''would'', ''should'', ''is'', ''are'', ''do'', ''does'']"

definition detectQuestions :: "string \<Rightarrow> bool" where
  "detectQuestions msg =
     (if length msg < 5 then False
      else if includesStr msg ''?'' then True
      else (let lowerMessage = trim (toLowerCase msg)
            in list_ex (\<lambda>word. startsWith lowerMessage (word @ '' '')) questionWords))"

text \<open>\<open>findAnswers\<close>: \<open>isCandidate\<close> is the predicate of its filter (the source tests the
  author twice), \<open>toAnswer\<close> the record built for each kept message.\<close>

definition isCandidate :: "HostQuestion \<Rightarrow> rat \<Rightarrow> ChatMessage \<Rightarrow> bool" where
  "isCandidate q timeWindowSeconds msg =
     (let timeDiffSeconds = (of_int (timestamp msg - q_timestamp q) :: rat) / 1000
      in 0 < timeDiffSeconds \<and> timeDiffSeconds \<le> timeWindowSeconds \<and>
         author msg \<noteq> q_author q \<and> author msg \<noteq> q_author q)"

definition toAnswer :: "int \<Rightarrow> ChatMessage \<Rightarrow> Answer" where
  "toAnswer questionTime msg =
     \<lparr> ans_messageId = msg_id msg, ans_author = author msg, ans_message = message msg,
       ans_timestamp = timestamp msg,
       responseTimeSeconds = of_int (timestamp msg - questionTime) / 1000 \<rparr>"

definition findAnswers :: "HostQuestion \<Rightarrow> ChatMessage list \<Rightarrow> string \<Rightarrow> rat \<Rightarrow> Answer list" where
  "findAnswers q messages hostName timeWindowSeconds =
     (let questionTime = q_timestamp q;
          candidateMessages = filter (isCandidate q timeWindowSeconds) messages;
          sortedCandidates = sortAscBy timestamp candidateMessages;
          topAnswers = slice 0 10 sortedCandidates
      in map (toAnswer questionTime) topAnswers)"

text \<open>\<open>extractHostQuestions\<close>: \<open>toHostQuestion\<close> is the body of its loop for a host message
  that is a question.\<close>

definition toHostQuestion :: "ChatMessage list \<Rightarrow> string \<Rightarrow> rat \<Rightarrow> ChatMessage \<Rightarrow> HostQuestion" where
  "toHostQuestion messages hostName timeWindowSeconds msg =
     (let as = findAnswers
                 \<lparr> q_messageId = msg_id msg, q_author = author msg, question = message msg,
                   q_timestamp = timestamp msg, answers = [], wasAnswered = False \<rparr>
                 messages hostName timeWindowSeconds
      in \<lparr> q_messageId = msg_id msg, q_author = author msg, question = message msg,
           q_timestamp = timestamp msg, answers = as, wasAnswered = (length as > 0) \<rparr>)"

definition extractHostQuestions :: "ChatMessage list \<Rightarrow> string \<Rightarrow> rat \<Rightarrow> HostQuestion list" where
  "extractHostQuestions messages hostName timeWindowSeconds =
     (let hostMessages = filter (\<lambda>msg. author msg = hostName) messages
      in map (toHostQuestion messages hostName timeWindowSeconds)
             (filter (\<lambda>msg. detectQuestions (message msg)) hostMessages))"

section \<open>Answerer ranking\<close>

text \<open>The source keeps the per-author statistics in a \<open>Map\<close>, which iterates in insertion
  order: an association list, where \<open>AList.update\<close> replaces the value of a present key in
  place and appends an absent one.\<close>

definition addAnswer :: "ChatMessage list \<Rightarrow> (string \<times> AnswererStats) list \<Rightarrow> Answer
    \<Rightarrow> (string \<times> AnswererStats) list" where
  "addAnswer messages answererMap answer =
     (let a = ans_author answer;
          m1 = (if map_of answererMap a = None
                then AList.update a
                       \<lparr> answersCount = 0, totalResponseTime = 0,
                         respondentMessages = length (filter (\<lambda>m. author m = a) messages) \<rparr>
                       answererMap
                else answererMap)
      in case map_of m1 a of
           None \<Rightarrow> m1
         | Some stats \<Rightarrow>
             AList.update a
               (stats\<lparr> answersCount := answersCount stats + 1,
                       totalResponseTime := totalResponseTime stats + responseTimeSeconds answer \<rparr>)
               m1)"

definition collectStats :: "HostQuestion list \<Rightarrow> ChatMessage list \<Rightarrow> (string \<times> AnswererStats) list" where
  "collectStats hostQuestions messages =
     foldl (\<lambda>m q. foldl (addAnswer messages) m (answers q)) [] hostQuestions"

text \<open>The profile image map keeps the image of the first message of each author;
  \<open>map_of\<close> on the messages in order returns the same entry.\<close>

definition profileImageOf :: "ChatMessage list \<Rightarrow> string \<Rightarrow> string" where
  "profileImageOf messages a =
     (case map_of (map (\<lambda>m. (author m, profileImageUrl m)) messages) a of
        None \<Rightarrow> [] | Some url \<Rightarrow> url)"

text \<open>The weighted sum of \<open>rankQuestionAnswerers\<close>, with the weights 0.4, 0.4 and 0.2; the
  source rounds it with \<open>Math.round\<close> and nothing else.\<close>

definition helpfulness :: "nat \<Rightarrow> AnswererStats \<Rightarrow> rat" where
  "helpfulness numQuestions stats =
     (let avgResponseTime = (if answersCount stats > 0
                             then totalResponseTime stats / of_nat (answersCount stats) else 0);
          frequencyScore = min 100 (of_nat (answersCount stats)
                                     / of_nat (max 1 (respondentMessages stats)) * 100);
          speedScore = max 0 (100 - (avgResponseTime / 60) * 10);
          engagementScore = (of_nat (answersCount stats) / of_nat numQuestions) * 100
      in (frequencyScore * (4 / 10)) + (speedScore * (4 / 10)) + (engagementScore * (2 / 10)))"

definition toAnswerer :: "HostQuestion list \<Rightarrow> ChatMessage list \<Rightarrow> string \<times> AnswererStats
    \<Rightarrow> QuestionAnswerer" where
  "toAnswerer hostQuestions messages entry =
     (let a = fst entry; stats = snd entry;
          avgResponseTime = (if answersCount stats > 0
                             then totalResponseTime stats / of_nat (answersCount stats) else 0)
      in \<lparr> qa_author = a, qa_profileImageUrl = profileImageOf messages a,
           questionsAnswered = answersCount stats,
           averageResponseTime = avgResponseTime,
           helpfulnessScore = Math_round (helpfulness (length hostQuestions) stats) \<rparr>)"

definition rankQuestionAnswerers :: "HostQuestion list \<Rightarrow> ChatMessage list \<Rightarrow> QuestionAnswerer list" where
  "rankQuestionAnswerers hostQuestions messages =
     sortDescBy helpfulnessScore
       (map (toAnswerer hostQuestions messages) (collectStats hostQuestions messages))"

section \<open>Host identification\<close>

text \<open>\<open>msg.badges?.includes(b)\<close>: a message without badges has none.\<close>

definition hasBadge :: "string \<Rightarrow> ChatMessage \<Rightarrow> bool" where
  "hasBadge b msg = (case badges msg of None \<Rightarrow> False | Some bs \<Rightarrow> b \<in> set bs)"

text \<open>The number of messages of an author, \<open>messages.filter(m => m.author === a).length\<close>.\<close>

definition authorCount :: "ChatMessage list \<Rightarrow> string \<Rightarrow> nat" where
  "authorCount messages a = length (filter (\<lambda>m. author m = a) messages)"

text \<open>The two badge loops of \<open>identifyHost\<close>: each returns at the first message that
  qualifies.\<close>

fun findOwner :: "ChatMessage list \<Rightarrow> string option" where
  "findOwner [] = None"
| "findOwner (msg # rest) =
     (if hasBadge ''owner'' msg then Some (author msg) else findOwner rest)"

fun findModerator :: "ChatMessage list \<Rightarrow> ChatMessage list \<Rightarrow> string option" where
  "findModerator messages [] = None"
| "findModerator messages (msg # rest) =
     (if hasBadge ''moderator'' msg
      then (let modCount = length (filter (\<lambda>m. author m = author msg) messages)
            in if (of_nat modCount :: rat) > max 5 (of_nat (length messages) / 100)
               then Some (author msg)
               else findModerator messages rest)
      else findModerator messages rest)"

text \<open>\<open>authorCounts.set(a, (authorCounts.get(a) || 0) + 1)\<close> over the messages in order.\<close>

definition bumpCount :: "(string \<times> nat) list \<Rightarrow> string \<Rightarrow> (string \<times> nat) list" where
  "bumpCount m a = AList.update a ((case map_of m a of None \<Rightarrow> 0 | Some c \<Rightarrow> c) + 1) m"

definition countAuthors :: "ChatMessage list \<Rightarrow> (string \<times> nat) list" where
  "countAuthors messages = foldl (\<lambda>m msg. bumpCount m (author msg)) [] messages"

text \<open>The loop that finds the most active author: it starts from the empty name and count
  0 and replaces them whenever a count is strictly greater.\<close>

definition pickTop :: "(string \<times> nat) list \<Rightarrow> string \<times> nat" where
  "pickTop authorCounts =
     foldl (\<lambda>best entry. if snd entry > snd best then (fst entry, snd entry) else best)
       ([], 0) authorCounts"

text \<open>The optional manual name is \<open>None\<close> when the argument is absent; the test
  \<open>if (manualHostName)\<close> also fails on the empty string.\<close>

definition identifyHost :: "ChatMessage list \<Rightarrow> string option \<Rightarrow> string option" where
  "identifyHost messages manualHostName =
     (if manualHostName \<noteq> None \<and> manualHostName \<noteq> Some []
      then manualHostName
      else case findOwner messages of
        Some a \<Rightarrow> Some a
      | None \<Rightarrow>
         (case findModerator messages messages of
            Some a \<Rightarrow> Some a
          | None \<Rightarrow>
             (let authorCounts = countAuthors messages
              in if length authorCounts = 0 then None
                 else (let best = pickTop authorCounts; topAuthor = fst best; maxCount = snd best
                       in if (of_nat maxCount :: rat) > of_nat (length messages) * (5 / 100)
                          then Some topAuthor
                          else None))))"

text \<open>The first step of the orchestrator \<open>analyzeEngagement\<close>:
  \<open>identifyHost(messages, hostIdentifier) || 'Unknown Host'\<close>.\<close>

definition orchestratorHostName :: "ChatMessage list \<Rightarrow> string option \<Rightarrow> string" where
  "orchestratorHostName messages hostIdentifier =
     (case identifyHost messages hostIdentifier of
        None \<Rightarrow> ''Unknown Host''
      | Some a \<Rightarrow> if a = [] then ''Unknown Host'' else a)"

section \<open>Keyword trends\<close>

datatype Trend = rising | stable | declining

record Keyword =
  kw_keyword :: string
  kw_frequency :: nat

record KeywordTrend =
  keyword :: string
  frequency :: nat
  trend :: Trend

text \<open>\<open>calculateKeywordTrends\<close>: \<open>countInPeriod\<close> counts the messages of a period whose
  lower-case text contains the lower-case keyword, \<open>trendOf\<close> is the classification, with
  0.3 as \<open>3 / 10\<close>, and \<open>keywordTrend\<close> the body of the loop over the keywords.\<close>

definition countInPeriod :: "string \<Rightarrow> ChatMessage list \<Rightarrow> nat" where
  "countInPeriod kw period =
     length (filter (\<lambda>msg. includesStr (toLowerCase (message msg)) (toLowerCase kw)) period)"

definition trendOf :: "nat \<Rightarrow> nat \<Rightarrow> nat \<Rightarrow> Trend" where
  "trendOf freq1 freq2 freq3 =
     (let rise = (of_nat freq3 :: rat) - of_nat freq1
      in if rise > of_nat (max freq1 freq2) * (3 / 10) then rising
         else if rise < - of_nat (max freq1 freq2) * (3 / 10) then declining
         else stable)"

definition keywordTrend :: "ChatMessage list \<Rightarrow> ChatMessage list \<Rightarrow> ChatMessage list
    \<Rightarrow> Keyword \<Rightarrow> KeywordTrend" where
  "keywordTrend period1 period2 period3 k =
     (let freq1 = countInPeriod (kw_keyword k) period1;
          freq2 = countInPeriod (kw_keyword k) period2;
          freq3 = countInPeriod (kw_keyword k) period3
      in \<lparr> keyword = kw_keyword k, frequency = freq1 + freq2 + freq3,
           trend = trendOf freq1 freq2 freq3 \<rparr>)"

definition calculateKeywordTrends :: "ChatMessage list \<Rightarrow> Keyword list \<Rightarrow> KeywordTrend list" where
  "calculateKeywordTrends messages keywords =
     (if length messages < 2 then []
      else (let sortedMessages = sortAscBy timestamp messages;
                thirdSize = nat \<lceil>(of_nat (length sortedMessages) :: rat) / 3\<rceil>;
                period1 = slice 0 thirdSize sortedMessages;
                period2 = slice thirdSize (thirdSize * 2) sortedMessages;
                period3 = sliceFrom (thirdSize * 2) sortedMessages;
                trends = map (keywordTrend period1 period2 period3) (slice 0 20 keywords)
            in sortDescBy (\<lambda>t. int (frequency t)) trends))"

section \<open>Conversation threads\<close>

text \<open>The thread identifier \<open>thread-n\<close> is modelled by its counter \<open>n\<close>. The sorted array
  holds wrapper objects \<open>{msg, originalIdx}\<close>: pairs, which are pairwise different because
  the original indices are.\<close>

record ConversationThread =
  threadId :: nat
  participants :: "string list"
  messageCount :: nat
  startTime :: int
  endTime :: int
  thr_messages :: "string list"

record LookAhead =
  threadMessages :: "(ChatMessage \<times> nat) list"
  la_participants :: "string list"
  processedIndices :: "nat set"

record ThreadState =
  threads :: "ConversationThread list"
  processed :: "nat set"
  threadCounter :: nat

text \<open>\<open>Set.add\<close> on a set of strings that is later read in insertion order.\<close>

definition addParticipant :: "string \<Rightarrow> string list \<Rightarrow> string list" where
  "addParticipant a ps = (if a \<in> set ps then ps else ps @ [a])"

text \<open>\<open>Array.prototype.indexOf\<close>; \<open>None\<close> stands for the result \<open>-1\<close>.\<close>

fun indexOf :: "'a list \<Rightarrow> 'a \<Rightarrow> nat option" where
  "indexOf [] x = None"
| "indexOf (y # ys) x = (if y = x then Some 0 else map_option Suc (indexOf ys x))"

definition sortWithIndex :: "ChatMessage list \<Rightarrow> (ChatMessage \<times> nat) list" where
  "sortWithIndex messages =
     sortAscBy (\<lambda>p. timestamp (fst p)) (zip messages [0..<length messages])"

definition timeDiffOf :: "ChatMessage \<times> nat \<Rightarrow> ChatMessage \<times> nat \<Rightarrow> rat" where
  "timeDiffOf startMsg currentMsg =
     of_int (timestamp (fst currentMsg) - timestamp (fst startMsg)) / 1000"

text \<open>The inner loop \<open>for (j = i + 1; j < length && j < i + 20; j++)\<close>, run over the list
  of its indices; \<open>continue\<close> goes on with the next index, \<open>break\<close> returns.\<close>

fun lookAhead :: "(ChatMessage \<times> nat) list \<Rightarrow> rat \<Rightarrow> ChatMessage \<times> nat \<Rightarrow> nat list
    \<Rightarrow> LookAhead \<Rightarrow> LookAhead" where
  "lookAhead sortedMessages w startMsg [] st = st"
| "lookAhead sortedMessages w startMsg (j # js) st =
     (if j \<in> processedIndices st then lookAhead sortedMessages w startMsg js st
      else (let currentMsg = sortedMessages ! j;
                timeDiff = timeDiffOf startMsg currentMsg
            in if timeDiff > w then st
               else if timeDiff \<le> w
                 then lookAhead sortedMessages w startMsg js
                        (st\<lparr> threadMessages := threadMessages st @ [currentMsg],
                             la_participants :=
                               addParticipant (author (fst currentMsg)) (la_participants st),
                             processedIndices := insert j (processedIndices st) \<rparr>)
                 else lookAhead sortedMessages w startMsg js st))"

text \<open>\<open>gather\<close> is the look-ahead of the seed at position \<open>i\<close>, started as the source
  starts it; \<open>markProcessed\<close> is the loop after a thread is pushed; \<open>seedStep\<close> is the body
  of the outer loop, and \<open>runSeeds\<close> the outer loop over all positions.\<close>

definition gather :: "(ChatMessage \<times> nat) list \<Rightarrow> rat \<Rightarrow> nat set \<Rightarrow> nat \<Rightarrow> LookAhead" where
  "gather sortedMessages w pre i =
     (let startMsg = sortedMessages ! i
      in lookAhead sortedMessages w startMsg
           [i + 1 ..< min (length sortedMessages) (i + 20)]
           \<lparr> threadMessages = [startMsg], la_participants = [author (fst startMsg)],
             processedIndices = pre \<rparr>)"

definition markProcessed :: "(ChatMessage \<times> nat) list \<Rightarrow> nat set \<Rightarrow> (ChatMessage \<times> nat) list
    \<Rightarrow> nat set" where
  "markProcessed sortedMessages pre tms =
     foldl (\<lambda>p tm. case indexOf sortedMessages tm of None \<Rightarrow> p | Some k \<Rightarrow> insert k p) pre tms"

definition seedStep :: "(ChatMessage \<times> nat) list \<Rightarrow> rat \<Rightarrow> ThreadState \<Rightarrow> nat \<Rightarrow> ThreadState" where
  "seedStep sortedMessages w st i =
     (if i \<in> processed st then st
      else (let la = gather sortedMessages w (processed st) i;
                tms = threadMessages la
            in if length tms \<ge> 3
               then \<lparr> threads = threads st @
                        [\<lparr> threadId = threadCounter st,
                           participants = la_participants la,
                           messageCount = length tms,
                           startTime = timestamp (fst (hd tms)),
                           endTime = timestamp (fst (last tms)),
                           thr_messages = map (\<lambda>tm. msg_id (fst tm)) tms \<rparr>],
                      processed = markProcessed sortedMessages (processedIndices la) tms,
                      threadCounter = threadCounter st + 1 \<rparr>
               else st\<lparr> processed := processedIndices la \<rparr>))"

definition runSeeds :: "(ChatMessage \<times> nat) list \<Rightarrow> rat \<Rightarrow> ThreadState" where
  "runSeeds sortedMessages w =
     foldl (seedStep sortedMessages w) \<lparr> threads = [], processed = {}, threadCounter = 0 \<rparr>
       [0 ..< length sortedMessages]"

definition detectThreads :: "ChatMessage list \<Rightarrow> rat \<Rightarrow> ConversationThread list" where
  "detectThreads messages timeWindowSeconds =
     (if length messages < 3 then []
      else threads (runSeeds (sortWithIndex messages) timeWindowSeconds))"

subsection \<open>A functional description of the scan\<close>

text \<open>The positions that a seed at position \<open>i\<close> gathers when none of the positions after
  it is marked: the seed and the longest run, among the next 19 positions, of messages
  within the window.\<close>

definition groupAt :: "(ChatMessage \<times> nat) list \<Rightarrow> rat \<Rightarrow> nat \<Rightarrow> nat list" where
  "groupAt sm w i =
     i # takeWhile (\<lambda>j. timeDiffOf (sm ! i) (sm ! j) \<le> w) [i + 1 ..< min (length sm) (i + 20)]"

definition participantsFrom :: "string list \<Rightarrow> (ChatMessage \<times> nat) list \<Rightarrow> string list" where
  "participantsFrom ps tms = foldl (\<lambda>ps tm. addParticipant (author (fst tm)) ps) ps tms"

definition threadOf :: "(ChatMessage \<times> nat) list \<Rightarrow> nat \<Rightarrow> nat list \<Rightarrow> ConversationThread" where
  "threadOf sm c g =
     \<lparr> threadId = c,
       participants = participantsFrom [] (map (\<lambda>j. sm ! j) g),
       messageCount = length g,
       startTime = timestamp (fst (sm ! hd g)),
       endTime = timestamp (fst (sm ! last g)),
       thr_messages = map (\<lambda>j. msg_id (fst (sm ! j))) g \<rparr>"

text \<open>The threads of the scan from position \<open>i\<close> on, with \<open>c\<close> threads emitted before:
  every group is skipped as a whole, whether it is emitted or not.\<close>

function emitFrom :: "(ChatMessage \<times> nat) list \<Rightarrow> rat \<Rightarrow> nat \<Rightarrow> nat \<Rightarrow> ConversationThread list" where
  "emitFrom sm w i c =
     (if length sm \<le> i then []
      else if 3 \<le> length (groupAt sm w i)
        then threadOf sm c (groupAt sm w i) # emitFrom sm w (i + length (groupAt sm w i)) (c + 1)
        else emitFrom sm w (i + length (groupAt sm w i)) c)"
  by pat_completeness auto
termination
  by (relation "measure (\<lambda>(sm, w, i, c). length sm - i)") (auto simp: groupAt_def)

declare emitFrom.simps [simp del]

section \<open>Community members\<close>

record Metrics =
  totalMessages :: nat
  messagesPerHour :: rat
  m_questionsAnswered :: rat
  avgResponseTime :: rat
  conversationCount :: nat

record CommunityMember =
  cm_author :: string
  cm_profileImageUrl :: string
  engagementScore :: int
  metrics :: Metrics
  cm_badges :: "string list option"

definition calculateStreamDuration :: "ChatMessage list \<Rightarrow> rat" where
  "calculateStreamDuration messages =
     (if length messages < 2 then 0
      else (let timestamps = map timestamp messages;
                minTime = Min (set timestamps);
                maxTime = Max (set timestamps)
            in of_int (maxTime - minTime) / (1000 * 60)))"

text \<open>The loop over the consecutive messages of one author: the sum and the number of the
  gaps of at most 300 seconds.\<close>

fun gapLoop :: "ChatMessage list \<Rightarrow> rat \<times> nat \<Rightarrow> rat \<times> nat" where
  "gapLoop (prev # cur # rest) (totalGap, gapCount) =
     (let timeDiff = (of_int (timestamp cur - timestamp prev) :: rat) / 1000
      in gapLoop (cur # rest)
           (if timeDiff \<le> 300 then (totalGap + timeDiff, gapCount + 1)
            else (totalGap, gapCount)))"
| "gapLoop rest acc = acc"

definition averageGap :: "ChatMessage list \<Rightarrow> rat" where
  "averageGap authorMessages =
     (if length authorMessages > 1
      then (let r = gapLoop authorMessages (0, 0); totalGap = fst r; gapCount = snd r
            in if gapCount > 0 then totalGap / of_nat gapCount else 120)
      else 120)"

definition calculateEngagementScore :: "string \<Rightarrow> ChatMessage list \<Rightarrow> ConversationThread list
    \<Rightarrow> rat \<Rightarrow> rat \<Rightarrow> int" where
  "calculateEngagementScore a messages thrs answeredQuestions streamDurationMinutes =
     (let authorMessages = filter (\<lambda>m. author m = a) messages;
          messageCount = length authorMessages
      in if messageCount = 0 then 0
         else (let messagesPerHour = (if streamDurationMinutes > 0
                                      then (of_nat messageCount / streamDurationMinutes) * 60
                                      else 0);
                   avgResponseTime = averageGap authorMessages;
                   authorThreads = filter (\<lambda>t. a \<in> set (participants t)) thrs;
                   conversationCount = length authorThreads;
                   frequencyScore = min 100 ((messagesPerHour / 10) * 100);
                   answeringScore = (if answeredQuestions > 0
                                     then min 100 (answeredQuestions * 10) else 0);
                   speedScore = max 0 (100 - (avgResponseTime / 120) * 100);
                   conversationScore = min 100 ((of_nat conversationCount / 5) * 100);
                   totalScore = (frequencyScore * (3 / 10)) + (answeringScore * (25 / 100))
                                + (speedScore * (25 / 100)) + (conversationScore * (2 / 10))
               in Math_round (min 100 totalScore)))"

text \<open>The last non-empty badge list of an author, as \<open>authorBadges\<close> keeps it.\<close>

definition authorBadgesOf :: "ChatMessage list \<Rightarrow> string \<Rightarrow> string list option" where
  "authorBadgesOf messages a =
     foldl (\<lambda>r msg. case badges msg of
                       Some bs \<Rightarrow> if author msg = a \<and> length bs > 0 then Some bs else r
                     | None \<Rightarrow> r) None messages"

definition toMember :: "ChatMessage list \<Rightarrow> ConversationThread list \<Rightarrow> (string \<rightharpoonup> rat) \<Rightarrow> rat
    \<Rightarrow> string \<times> nat \<Rightarrow> CommunityMember" where
  "toMember messages thrs questionAnswerers streamDurationMinutes entry =
     (let a = fst entry; total = snd entry;
          perHour = (if streamDurationMinutes > 0
                     then (of_nat total / streamDurationMinutes) * 60 else 0);
          answered = (case questionAnswerers a of None \<Rightarrow> 0 | Some n \<Rightarrow> n);
          authorMessages = filter (\<lambda>m. author m = a) messages
      in \<lparr> cm_author = a,
           cm_profileImageUrl = profileImageOf messages a,
           engagementScore =
             calculateEngagementScore a messages thrs answered streamDurationMinutes,
           metrics = \<lparr> totalMessages = total, messagesPerHour = perHour,
                       m_questionsAnswered = answered,
                       avgResponseTime = averageGap authorMessages,
                       conversationCount =
                         length (filter (\<lambda>t. a \<in> set (participants t)) thrs) \<rparr>,
           cm_badges = authorBadgesOf messages a \<rparr>)"

text \<open>One member per key of the message-count map, in its insertion order, then the stable
  descending sort and the first twenty.\<close>

definition identifyActiveCommunityMembers :: "ChatMessage list \<Rightarrow> ConversationThread list
    \<Rightarrow> (string \<rightharpoonup> rat) \<Rightarrow> CommunityMember list" where
  "identifyActiveCommunityMembers messages thrs questionAnswerers =
     (let streamDurationMinutes = calculateStreamDuration messages;
          authorMessageCount = countAuthors messages;
          members = map (toMember messages thrs questionAnswerers streamDurationMinutes)
                      authorMessageCount;
          sortedMembers = sortDescBy engagementScore members
      in slice 0 20 sortedMembers)"

section \<open>Example inputs\<close>

definition textMessage :: "string \<Rightarrow> string \<Rightarrow> string \<Rightarrow> int \<Rightarrow> ChatMessage" where
  "textMessage i a m t =
     \<lparr> msg_id = i, author = a, message = m, timestamp = t, profileImageUrl = [],
       badges = None \<rparr>"

text \<open>The host asks one question; Bob sends his only two messages 20 and 40 seconds later.\<close>

definition chatTwoReplies :: "ChatMessage list" where
  "chatTwoReplies =
     [textMessage ''m1'' ''Host'' ''How are you?'' 0,
      textMessage ''m2'' ''Bob'' ''fine'' 20000,
      textMessage ''m3'' ''Bob'' ''really fine'' 40000]"

text \<open>Alice and Bob both wrote two messages, Carol one; nobody carries a badge.\<close>

definition chatTie :: "ChatMessage list" where
  "chatTie =
     [textMessage ''t1'' ''Alice'' ''hello all'' 0,
      textMessage ''t2'' ''Bob'' ''hi there'' 5000,
      textMessage ''t3'' ''Alice'' ''good evening'' 9000,
      textMessage ''t4'' ''Bob'' ''nice stream'' 12000,
      textMessage ''t5'' ''Carol'' ''first time here'' 15000]"

text \<open>Twenty-one authors with one message each, one second apart.\<close>

definition chatCrowd :: "ChatMessage list" where
  "chatCrowd =
     map (\<lambda>n. textMessage (replicate (Suc n) (CHR ''i'')) (replicate (Suc n) (CHR ''a''))
                 ''hi'' (int n * 1000))
       [0 ..< 21]"

text \<open>Three keywords, each contained in one message of \<open>chatTie\<close>.\<close>

definition keywordsTie :: "Keyword list" where
  "keywordsTie =
     [\<lparr> kw_keyword = ''time'', kw_frequency = 1 \<rparr>,
      \<lparr> kw_keyword = ''hi'', kw_frequency = 1 \<rparr>,
      \<lparr> kw_keyword = ''stream'', kw_frequency = 1 \<rparr>]"

text \<open>One message with an owner badge among unbadged ones.\<close>

definition chatOwner :: "ChatMessage list" where
  "chatOwner =
     [textMessage ''o1'' ''Bob'' ''hi'' 0,
      textMessage ''o2'' ''Bob'' ''anyone here'' 1000,
      (textMessage ''o3'' ''Alice'' ''welcome'' 2000)\<lparr> badges := Some [''owner''] \<rparr>,
      textMessage ''o4'' ''Bob'' ''thanks'' 3000]"

text \<open>A moderator with six of the eight messages.\<close>

definition chatModerator :: "ChatMessage list" where
  "chatModerator =
     map (\<lambda>n. (textMessage (replicate (Suc n) (CHR ''m'')) ''Mod'' ''keep it friendly''
                  (int n * 1000))\<lparr> badges := Some [''moderator''] \<rparr>) [0 ..< 6]
     @ [textMessage ''v1'' ''Vic'' ''ok'' 7000, textMessage ''v2'' ''Vic'' ''sure'' 8000]"

text \<open>Four messages at 0, 100, 200 and 210 seconds.\<close>

definition chatLost :: "ChatMessage list" where
  "chatLost =
     [textMessage ''a'' ''Ann'' ''one'' 0,
      textMessage ''b'' ''Bob'' ''two'' 100000,
      textMessage ''c'' ''Cy'' ''three'' 200000,
      textMessage ''d'' ''Di'' ''four'' 210000]"

text \<open>Twenty-one messages, one second apart.\<close>

definition chatBurst :: "ChatMessage list" where
  "chatBurst =
     map (\<lambda>n. textMessage (replicate (Suc n) (CHR ''x'')) ''Ann'' ''hi'' (int n * 1000))
       [0 ..< 21]"

text \<open>Three messages by Carl, ten seconds apart.\<close>

definition chatCarl :: "ChatMessage list" where
  "chatCarl =
     [textMessage ''c1'' ''Carl'' ''hello'' 0,
      textMessage ''c2'' ''Carl'' ''anyone'' 10000,
      textMessage ''c3'' ''Carl'' ''well then'' 20000]"

text \<open>Two bursts of three messages, a quarter of an hour apart.\<close>

definition chatTwoBursts :: "ChatMessage list" where
  "chatTwoBursts =
     [textMessage ''b1'' ''Ann'' ''hello'' 0,
      textMessage ''b2'' ''Bob'' ''hi Ann'' 10000,
      textMessage ''b3'' ''Ann'' ''how are things'' 20000,
      textMessage ''b4'' ''Cy'' ''back again'' 900000,
      textMessage ''b5'' ''Di'' ''welcome back'' 910000,
      textMessage ''b6'' ''Cy'' ''thanks'' 920000]"

text \<open>A host question answered once, 30 seconds later.\<close>

definition chatOneReply :: "ChatMessage list" where
  "chatOneReply =
     [textMessage ''q1'' ''Host'' ''What time does the stream end?'' 1000,
      textMessage ''r1'' ''Bob'' ''9pm!'' 31000]"

section \<open>Properties of the question and answer extraction\<close>

lemma findAnswers_member:
  assumes "a \<in> set (findAnswers q messages hostName w)"
  shows "\<exists>m \<in> set messages. isCandidate q w m \<and> a = toAnswer (q_timestamp q) m"
proof -
  from assms obtain m where
    m: "m \<in> set (take 10 (sort_key timestamp (filter (isCandidate q w) messages)))"
    and a: "a = toAnswer (q_timestamp q) m"
    by (auto simp: findAnswers_def slice_def sortAscBy_def)
  from m have "m \<in> set (sort_key timestamp (filter (isCandidate q w) messages))"
    by (rule in_set_takeD)
  then have "m \<in> set messages \<and> isCandidate q w m" by simp
  with a show ?thesis by blast
qed

lemma findAnswers_sorted:
  "sorted (map ans_timestamp (findAnswers q messages hostName w))"
proof -
  let ?cs = "sort_key timestamp (filter (isCandidate q w) messages)"
  have eq: "map ans_timestamp (findAnswers q messages hostName w) = take 10 (map timestamp ?cs)"
    by (simp add: findAnswers_def slice_def sortAscBy_def toAnswer_def take_map o_def)
  have "sorted (map timestamp ?cs)" by (rule sorted_sort_key)
  then have "sorted (take 10 (map timestamp ?cs))" by (rule sorted_wrt_take)
  with eq show ?thesis by simp
qed

lemma findAnswers_length: "length (findAnswers q messages hostName w) \<le> 10"
  by (simp add: findAnswers_def slice_def)

lemma toAnswer_candidate:
  assumes "isCandidate q w m"
  shows "0 < responseTimeSeconds (toAnswer (q_timestamp q) m)"
    and "responseTimeSeconds (toAnswer (q_timestamp q) m) \<le> w"
    and "ans_author (toAnswer (q_timestamp q) m) \<noteq> q_author q"
  using assms by (simp_all add: isCandidate_def toAnswer_def Let_def)

text \<open>
  C6. Every host question that \<open>extractHostQuestions\<close> produces carries answers whose
  response time is strictly positive and at most the time window, written by someone other
  than the questioner; the answers are in chronological order, there are at most ten of
  them, and the question counts as answered exactly when it has at least one answer.
\<close>

theorem extractHostQuestions_answers:
  assumes "q \<in> set (extractHostQuestions messages hostName w)"
  shows "(\<forall>a \<in> set (answers q).
            0 < responseTimeSeconds a \<and> responseTimeSeconds a \<le> w \<and> ans_author a \<noteq> q_author q)
       \<and> sorted (map ans_timestamp (answers q))
       \<and> length (answers q) \<le> 10
       \<and> (wasAnswered q \<longleftrightarrow> 1 \<le> length (answers q))"
proof -
  from assms obtain msg where q: "q = toHostQuestion messages hostName w msg"
    by (auto simp: extractHostQuestions_def)
  define q0 where "q0 = \<lparr> q_messageId = msg_id msg, q_author = author msg, question = message msg,
                   q_timestamp = timestamp msg, answers = [], wasAnswered = False \<rparr>"
  have ans: "answers q = findAnswers q0 messages hostName w"
    and was: "wasAnswered q = (length (findAnswers q0 messages hostName w) > 0)"
    and au: "q_author q = q_author q0"
    by (simp_all add: q toHostQuestion_def q0_def Let_def)
  have "\<forall>a \<in> set (answers q).
            0 < responseTimeSeconds a \<and> responseTimeSeconds a \<le> w \<and> ans_author a \<noteq> q_author q"
    unfolding ans au using findAnswers_member toAnswer_candidate by blast
  moreover have "sorted (map ans_timestamp (answers q))"
    unfolding ans by (rule findAnswers_sorted)
  moreover have "length (answers q) \<le> 10"
    unfolding ans by (rule findAnswers_length)
  moreover have "wasAnswered q \<longleftrightarrow> 1 \<le> length (answers q)"
    unfolding ans was by (cases "findAnswers q0 messages hostName w") auto
  ultimately show ?thesis by blast
qed

theorem extractHostQuestions_answers_witness:
  "hd (extractHostQuestions chatOneReply ''Host'' 120)
     \<in> set (extractHostQuestions chatOneReply ''Host'' 120)
   \<and> hd (answers (hd (extractHostQuestions chatOneReply ''Host'' 120)))
     \<in> set (answers (hd (extractHostQuestions chatOneReply ''Host'' 120)))
   \<and> 0 < responseTimeSeconds (hd (answers (hd (extractHostQuestions chatOneReply ''Host'' 120))))
   \<and> responseTimeSeconds (hd (answers (hd (extractHostQuestions chatOneReply ''Host'' 120)))) \<le> 120
   \<and> length (answers (hd (extractHostQuestions chatOneReply ''Host'' 120))) \<le> 10
   \<and> wasAnswered (hd (extractHostQuestions chatOneReply ''Host'' 120))"
proof -
  let ?q = "hd (extractHostQuestions chatOneReply ''Host'' 120)"
  have h: "?q \<in> set (extractHostQuestions chatOneReply ''Host'' 120)"
    by code_simp
  have a: "hd (answers ?q) \<in> set (answers ?q)"
    by code_simp
  have n: "1 \<le> length (answers ?q)"
    by code_simp
  from extractHostQuestions_answers [OF h] h a n show ?thesis by blast
qed

section \<open>Properties of the answerer ranking\<close>

text \<open>
  C1. The helpfulness score of a ranked answerer is meant to lie between 0 and 100. On the
  chat where Bob answers the single host question twice, the engagement term is 200 and the
  rounded weighted sum returned for Bob is 118.
\<close>

theorem rankQuestionAnswerers_score_above_100:
  "map helpfulnessScore
     (rankQuestionAnswerers (extractHostQuestions chatTwoReplies ''Host'' 120) chatTwoReplies)
   = [118]"
  by code_simp

lemma foldl_nested_concat:
  "foldl (\<lambda>m q. foldl f m (g q)) m0 qs = foldl f m0 (concat (map g qs))"
  by (induction qs arbitrary: m0) simp_all

lemma collectStats_flat:
  "collectStats qs ms = foldl (addAnswer ms) [] (concat (map answers qs))"
  by (simp add: collectStats_def foldl_nested_concat)

lemma addAnswer_keys:
  "map fst (addAnswer ms L x)
     = (if ans_author x \<in> set (map fst L) then map fst L else map fst L @ [ans_author x])"
proof (cases "map_of L (ans_author x)")
  case None
  then have "ans_author x \<notin> set (map fst L)" by (simp add: map_of_eq_None_iff)
  then show ?thesis using None
    by (simp add: addAnswer_def Let_def update_conv' update_keys)
next
  case (Some st)
  then have "ans_author x \<in> set (map fst L)"
    by (metis map_of_eq_None_iff option.distinct(1) set_map)
  then show ?thesis using Some by (simp add: addAnswer_def Let_def update_keys)
qed

lemma addAnswer_count:
  "map_option answersCount (map_of (addAnswer ms L x) a)
     = (if a = ans_author x
        then Some ((case map_of L a of None \<Rightarrow> 0 | Some st \<Rightarrow> answersCount st) + 1)
        else map_option answersCount (map_of L a))"
  by (cases "map_of L (ans_author x)") (simp_all add: addAnswer_def Let_def update_conv')

lemma stats_distinct: "distinct (map fst (foldl (addAnswer ms) [] as))"
proof (induction as rule: rev_induct)
  case Nil
  then show ?case by simp
next
  case (snoc x as)
  then show ?case by (simp add: addAnswer_keys)
qed

lemma stats_count:
  "map_option answersCount (map_of (foldl (addAnswer ms) [] as) a)
     = (if a \<in> ans_author ` set as
        then Some (length (filter (\<lambda>x. ans_author x = a) as)) else None)"
proof (induction as rule: rev_induct)
  case Nil
  then show ?case by simp
next
  case (snoc x as)
  show ?case
  proof (cases "a = ans_author x")
    case True
    have "filter (\<lambda>y. ans_author y = ans_author x) as = []" if "ans_author x \<notin> ans_author ` set as"
      using that by (metis (mono_tags, lifting) filter_False imageI)
    then show ?thesis
      using snoc True by (auto simp: addAnswer_count split: option.splits if_splits)
  next
    case False
    then show ?thesis using snoc by (auto simp: addAnswer_count)
  qed
qed

lemma rankQuestionAnswerers_member:
  assumes "x \<in> set (rankQuestionAnswerers qs ms)"
  shows "questionsAnswered x
           = length (filter (\<lambda>a. ans_author a = qa_author x) (concat (map answers qs)))"
proof -
  let ?as = "concat (map answers qs)"
  let ?L = "foldl (addAnswer ms) [] ?as"
  from assms obtain e where e: "e \<in> set ?L" and x: "x = toAnswerer qs ms e"
    by (auto simp: rankQuestionAnswerers_def sortDescBy_def collectStats_flat)
  have "map_of ?L (fst e) = Some (snd e)"
    using e stats_distinct by (metis map_of_eq_Some_iff prod.collapse)
  then have "map_option answersCount (map_of ?L (fst e)) = Some (answersCount (snd e))" by simp
  then have "answersCount (snd e) = length (filter (\<lambda>a. ans_author a = fst e) ?as)"
    unfolding stats_count by (simp split: if_splits)
  then show ?thesis by (simp add: x toAnswerer_def Let_def)
qed

text \<open>
  C10. Answer candidates are not deduplicated by author. The \<open>questionsAnswered\<close> of a
  ranked answerer is the number of answer records by that author over all host questions;
  on the chat where Bob writes twice inside the window, the single host question receives
  two answers by Bob, and Bob's \<open>questionsAnswered\<close> is 2, more than the number of host
  questions.
\<close>

theorem findAnswers_keeps_repeated_author:
  "(\<forall>x \<in> set (rankQuestionAnswerers qs ms).
       questionsAnswered x
         = length (filter (\<lambda>a. ans_author a = qa_author x) (concat (map answers qs))))
   \<and> length (extractHostQuestions chatTwoReplies ''Host'' 120) = 1
   \<and> map (\<lambda>q. map ans_author (answers q)) (extractHostQuestions chatTwoReplies ''Host'' 120)
       = [[''Bob'', ''Bob'']]
   \<and> map (\<lambda>a. (qa_author a, questionsAnswered a))
       (rankQuestionAnswerers (extractHostQuestions chatTwoReplies ''Host'' 120) chatTwoReplies)
       = [(''Bob'', 2)]"
proof (intro conjI ballI)
  fix x assume "x \<in> set (rankQuestionAnswerers qs ms)"
  then show "questionsAnswered x
         = length (filter (\<lambda>a. ans_author a = qa_author x) (concat (map answers qs)))"
    by (rule rankQuestionAnswerers_member)
qed code_simp+

theorem findAnswers_keeps_repeated_author_witness:
  "hd (rankQuestionAnswerers (extractHostQuestions chatTwoReplies ''Host'' 120) chatTwoReplies)
     \<in> set (rankQuestionAnswerers (extractHostQuestions chatTwoReplies ''Host'' 120) chatTwoReplies)
   \<and> questionsAnswered
       (hd (rankQuestionAnswerers (extractHostQuestions chatTwoReplies ''Host'' 120) chatTwoReplies))
     = length (filter (\<lambda>a. ans_author a = qa_author
         (hd (rankQuestionAnswerers (extractHostQuestions chatTwoReplies ''Host'' 120) chatTwoReplies)))
         (concat (map answers (extractHostQuestions chatTwoReplies ''Host'' 120))))
   \<and> length (filter (\<lambda>a. ans_author a = ''Bob'')
         (concat (map answers (extractHostQuestions chatTwoReplies ''Host'' 120)))) = 2
   \<and> length (extractHostQuestions chatTwoReplies ''Host'' 120) = 1"
proof -
  let ?qs = "extractHostQuestions chatTwoReplies ''Host'' 120"
  have h: "hd (rankQuestionAnswerers ?qs chatTwoReplies) \<in> set (rankQuestionAnswerers ?qs chatTwoReplies)"
    by code_simp
  have c: "length (filter (\<lambda>a. ans_author a = ''Bob'') (concat (map answers ?qs))) = 2"
    by code_simp
  have n: "length ?qs = 1" by code_simp
  note all = findAnswers_keeps_repeated_author [of ?qs chatTwoReplies]
  note e = bspec [OF conjunct1 [OF all] h]
  from h e c n show ?thesis by (intro conjI)
qed

section \<open>Properties of the community scorer\<close>

lemma Math_round_bounds:
  assumes "0 \<le> x" and "x \<le> 100"
  shows "0 \<le> Math_round x" and "Math_round x \<le> 100"
proof -
  show "0 \<le> Math_round x" using assms(1) by (simp add: Math_round_def)
  have "x + 1 / 2 < 101" using assms(2) by simp
  then have "\<lfloor>x + 1 / 2\<rfloor> < 101" by (simp add: floor_less_iff)
  then show "Math_round x \<le> 100" by (simp add: Math_round_def)
qed

lemma calculateEngagementScore_range:
  "0 \<le> calculateEngagementScore a messages thrs answered duration \<and>
   calculateEngagementScore a messages thrs answered duration \<le> 100"
proof (cases "length (filter (\<lambda>m. author m = a) messages) = 0")
  case True
  then show ?thesis by (simp add: calculateEngagementScore_def)
next
  case False
  define n where "n = length (filter (\<lambda>m. author m = a) messages)"
  define perHour :: rat where
    "perHour = (if duration > 0 then (of_nat n / duration) * 60 else 0)"
  define f :: rat where "f = min 100 ((perHour / 10) * 100)"
  define q :: rat where "q = (if answered > 0 then min 100 (answered * 10) else 0)"
  define s :: rat where
    "s = max 0 (100 - (averageGap (filter (\<lambda>m. author m = a) messages) / 120) * 100)"
  define c :: rat where
    "c = min 100 ((of_nat (length (filter (\<lambda>t. a \<in> set (participants t)) thrs)) / 5) * 100)"
  define total where
    "total = (f * (3 / 10)) + (q * (25 / 100)) + (s * (25 / 100)) + (c * (2 / 10))"
  have score:
    "calculateEngagementScore a messages thrs answered duration = Math_round (min 100 total)"
    using False
    by (simp add: calculateEngagementScore_def Let_def total_def f_def q_def s_def c_def
        perHour_def n_def)
  have "0 \<le> perHour" by (simp add: perHour_def)
  then have f0: "0 \<le> f" by (simp add: f_def)
  have q0: "0 \<le> q" by (simp add: q_def)
  have s0: "0 \<le> s" by (simp add: s_def)
  have c0: "0 \<le> c" by (simp add: c_def)
  have "0 \<le> total" unfolding total_def using f0 q0 s0 c0 by simp
  then have "0 \<le> min 100 total" and "min 100 total \<le> 100" by simp_all
  then show ?thesis unfolding score using Math_round_bounds by blast
qed

lemma sortDescBy_sorted: "sorted_wrt (\<lambda>x y. f y \<le> f x) (sortDescBy f xs)"
proof -
  have "sorted (map (\<lambda>x. - f x) (sort_key (\<lambda>x. - f x) xs))" by (rule sorted_sort_key)
  then show ?thesis by (simp add: sortDescBy_def sorted_map)
qed

lemma set_sortDescBy: "set (sortDescBy f xs) = set xs"
  by (simp add: sortDescBy_def)

lemma length_sortDescBy: "length (sortDescBy f xs) = length xs"
  by (simp add: sortDescBy_def)

text \<open>
  C7. Every community member returned by \<open>identifyActiveCommunityMembers\<close> has an
  engagement score between 0 and 100, the returned list is sorted by non-increasing
  engagement score, and it holds at most 20 members.
\<close>

theorem identifyActiveCommunityMembers_scores:
  "(\<forall>m \<in> set (identifyActiveCommunityMembers messages thrs qa).
       0 \<le> engagementScore m \<and> engagementScore m \<le> 100)
   \<and> sorted_wrt (\<lambda>x y. engagementScore y \<le> engagementScore x)
        (identifyActiveCommunityMembers messages thrs qa)
   \<and> length (identifyActiveCommunityMembers messages thrs qa) \<le> 20"
proof -
  define d where "d = calculateStreamDuration messages"
  define ms where "ms = map (toMember messages thrs qa d) (countAuthors messages)"
  have res:
    "identifyActiveCommunityMembers messages thrs qa = take 20 (sortDescBy engagementScore ms)"
    by (simp add: identifyActiveCommunityMembers_def Let_def slice_def ms_def d_def)
  have range: "0 \<le> engagementScore m \<and> engagementScore m \<le> 100" if "m \<in> set ms" for m
  proof -
    from that obtain e where "m = toMember messages thrs qa d e" by (auto simp: ms_def)
    then show ?thesis
      using calculateEngagementScore_range by (simp add: toMember_def Let_def)
  qed
  have "\<forall>m \<in> set (take 20 (sortDescBy engagementScore ms)).
           0 \<le> engagementScore m \<and> engagementScore m \<le> 100"
    using range in_set_takeD set_sortDescBy by metis
  moreover have "sorted_wrt (\<lambda>x y. engagementScore y \<le> engagementScore x)
        (take 20 (sortDescBy engagementScore ms))"
    using sortDescBy_sorted by (rule sorted_wrt_take)
  moreover have "length (take 20 (sortDescBy engagementScore ms)) \<le> 20" by simp
  ultimately show ?thesis unfolding res by blast
qed

theorem identifyActiveCommunityMembers_scores_witness:
  "hd (identifyActiveCommunityMembers chatTwoReplies [] Map.empty)
     \<in> set (identifyActiveCommunityMembers chatTwoReplies [] Map.empty)
   \<and> 0 \<le> engagementScore (hd (identifyActiveCommunityMembers chatTwoReplies [] Map.empty))
   \<and> engagementScore (hd (identifyActiveCommunityMembers chatTwoReplies [] Map.empty)) \<le> 100
   \<and> length (identifyActiveCommunityMembers chatTwoReplies [] Map.empty) \<le> 20"
proof -
  have h: "hd (identifyActiveCommunityMembers chatTwoReplies [] Map.empty)
     \<in> set (identifyActiveCommunityMembers chatTwoReplies [] Map.empty)"
    by code_simp
  from identifyActiveCommunityMembers_scores [of chatTwoReplies "[]" Map.empty] h
  show ?thesis by blast
qed

section \<open>Properties of the keyword trends\<close>

lemma thirdSize_eq: "nat \<lceil>(of_nat n :: rat) / 3\<rceil> = (n + 2) div 3"
proof -
  have "\<lceil>(of_nat n :: rat) / 3\<rceil> = \<lceil>(of_int (int n) :: rat) / of_int 3\<rceil>" by simp
  also have "\<dots> = - ((- int n) div 3)" by (simp only: ceiling_divide_eq_div)
  also have "\<dots> = (int n + 2) div 3" by linarith
  finally have "\<lceil>(of_nat n :: rat) / 3\<rceil> = int ((n + 2) div 3)" by (simp add: zdiv_int)
  then show ?thesis by simp
qed

lemma trendOf_cases:
  "trendOf c1 c2 c3 =
     (if (of_int (int c3 - int c1) :: rat) > (3 / 10) * of_nat (max c1 c2) then rising
      else if (of_int (int c3 - int c1) :: rat) < - ((3 / 10) * of_nat (max c1 c2)) then declining
      else stable)"
  by (simp add: trendOf_def Let_def mult.commute)

text \<open>
  C8. \<open>calculateKeywordTrends\<close> returns no trends for fewer than two messages. Otherwise it
  sorts the messages chronologically and cuts the sorted list into three contiguous periods,
  the first two of size \<open>ceil(n/3)\<close> and the rest in the third; each of the first twenty
  keywords gets its per-period counts, their sum as frequency, and the trend rising when
  \<open>count3 - count1 > 0.3 * max count1 count2\<close>, declining when
  \<open>count3 - count1 < - 0.3 * max count1 count2\<close>, stable otherwise; the trends are returned
  sorted by frequency, highest first.
\<close>

theorem calculateKeywordTrends_spec:
  "(length ms < 2 \<longrightarrow> calculateKeywordTrends ms kws = []) \<and>
   (2 \<le> length ms \<longrightarrow>
      (let s = sort_key timestamp ms;
           t = nat \<lceil>(of_nat (length ms) :: rat) / 3\<rceil>;
           p1 = take t s; p2 = take t (drop t s); p3 = drop (2 * t) s
       in sorted (map timestamp s) \<and> mset s = mset ms
          \<and> p1 @ p2 @ p3 = s \<and> length p1 = t \<and> length p2 = t
          \<and> calculateKeywordTrends ms kws
              = sort_key (\<lambda>r. - int (frequency r)) (map (keywordTrend p1 p2 p3) (take 20 kws))
          \<and> sorted_wrt (\<lambda>x y. frequency y \<le> frequency x) (calculateKeywordTrends ms kws)
          \<and> (\<forall>k. keyword (keywordTrend p1 p2 p3 k) = kw_keyword k
                \<and> frequency (keywordTrend p1 p2 p3 k)
                    = countInPeriod (kw_keyword k) p1 + countInPeriod (kw_keyword k) p2
                      + countInPeriod (kw_keyword k) p3
                \<and> trend (keywordTrend p1 p2 p3 k)
                    = (let c1 = countInPeriod (kw_keyword k) p1;
                           c2 = countInPeriod (kw_keyword k) p2;
                           c3 = countInPeriod (kw_keyword k) p3
                       in if (of_int (int c3 - int c1) :: rat) > (3 / 10) * of_nat (max c1 c2)
                          then rising
                          else if (of_int (int c3 - int c1) :: rat) < - ((3 / 10) * of_nat (max c1 c2))
                          then declining
                          else stable))))"
proof (intro conjI impI)
  assume "length ms < 2"
  then show "calculateKeywordTrends ms kws = []" by (simp add: calculateKeywordTrends_def)
next
  assume n2: "2 \<le> length ms"
  define s where "s = sort_key timestamp ms"
  define t where "t = nat \<lceil>(of_nat (length ms) :: rat) / 3\<rceil>"
  define p1 where "p1 = take t s"
  define p2 where "p2 = take t (drop t s)"
  define p3 where "p3 = drop (2 * t) s"
  have t: "t = (length ms + 2) div 3" unfolding t_def by (rule thirdSize_eq)
  have ls: "length s = length ms" by (simp add: s_def)
  have tt: "2 * t \<le> length ms" using n2 t by linarith
  have srt: "sorted (map timestamp s)" unfolding s_def by (rule sorted_sort_key)
  have perm: "mset s = mset ms" by (simp add: s_def)
  have app: "p1 @ p2 @ p3 = s"
  proof -
    have "take t (drop t s) @ drop (2 * t) s = drop t s"
      by (metis add.commute append_take_drop_id drop_drop mult_2)
    then show ?thesis by (simp add: p1_def p2_def p3_def)
  qed
  have l1: "length p1 = t" using tt ls by (simp add: p1_def)
  have l2: "length p2 = t" using tt ls by (simp add: p2_def)
  have res: "calculateKeywordTrends ms kws
              = sort_key (\<lambda>r. - int (frequency r)) (map (keywordTrend p1 p2 p3) (take 20 kws))"
    using n2
    by (simp add: calculateKeywordTrends_def Let_def sortAscBy_def sortDescBy_def slice_def
        sliceFrom_def p1_def p2_def p3_def s_def t_def mult.commute)
  have desc: "sorted_wrt (\<lambda>x y. frequency y \<le> frequency x) (calculateKeywordTrends ms kws)"
  proof -
    have "sorted_wrt (\<lambda>x y. int (frequency y) \<le> int (frequency x))
            (sortDescBy (\<lambda>r. int (frequency r)) (map (keywordTrend p1 p2 p3) (take 20 kws)))"
      by (rule sortDescBy_sorted)
    then show ?thesis by (simp add: res sortDescBy_def)
  qed
  have each: "keyword (keywordTrend p1 p2 p3 k) = kw_keyword k
                \<and> frequency (keywordTrend p1 p2 p3 k)
                    = countInPeriod (kw_keyword k) p1 + countInPeriod (kw_keyword k) p2
                      + countInPeriod (kw_keyword k) p3
                \<and> trend (keywordTrend p1 p2 p3 k)
                    = (let c1 = countInPeriod (kw_keyword k) p1;
                           c2 = countInPeriod (kw_keyword k) p2;
                           c3 = countInPeriod (kw_keyword k) p3
                       in if (of_int (int c3 - int c1) :: rat) > (3 / 10) * of_nat (max c1 c2)
                          then rising
                          else if (of_int (int c3 - int c1) :: rat) < - ((3 / 10) * of_nat (max c1 c2))
                          then declining
                          else stable)" for k
    by (simp add: keywordTrend_def Let_def trendOf_cases)
  show "let s = sort_key timestamp ms;
           t = nat \<lceil>(of_nat (length ms) :: rat) / 3\<rceil>;
           p1 = take t s; p2 = take t (drop t s); p3 = drop (2 * t) s
       in sorted (map timestamp s) \<and> mset s = mset ms
          \<and> p1 @ p2 @ p3 = s \<and> length p1 = t \<and> length p2 = t
          \<and> calculateKeywordTrends ms kws
              = sort_key (\<lambda>r. - int (frequency r)) (map (keywordTrend p1 p2 p3) (take 20 kws))
          \<and> sorted_wrt (\<lambda>x y. frequency y \<le> frequency x) (calculateKeywordTrends ms kws)
          \<and> (\<forall>k. keyword (keywordTrend p1 p2 p3 k) = kw_keyword k
                \<and> frequency (keywordTrend p1 p2 p3 k)
                    = countInPeriod (kw_keyword k) p1 + countInPeriod (kw_keyword k) p2
                      + countInPeriod (kw_keyword k) p3
                \<and> trend (keywordTrend p1 p2 p3 k)
                    = (let c1 = countInPeriod (kw_keyword k) p1;
                           c2 = countInPeriod (kw_keyword k) p2;
                           c3 = countInPeriod (kw_keyword k) p3
                       in if (of_int (int c3 - int c1) :: rat) > (3 / 10) * of_nat (max c1 c2)
                          then rising
                          else if (of_int (int c3 - int c1) :: rat) < - ((3 / 10) * of_nat (max c1 c2))
                          then declining
                          else stable))"
    unfolding Let_def
    using srt perm app l1 l2 res desc each
    unfolding s_def t_def p1_def p2_def p3_def Let_def
    by blast
qed

theorem calculateKeywordTrends_spec_witness:
  "2 \<le> length chatTie
   \<and> sorted_wrt (\<lambda>x y. frequency y \<le> frequency x) (calculateKeywordTrends chatTie keywordsTie)
   \<and> map trend (calculateKeywordTrends chatTie keywordsTie) = [rising, declining, stable]
   \<and> length ([] :: ChatMessage list) < 2
   \<and> calculateKeywordTrends [] keywordsTie = []"
proof -
  have h: "2 \<le> length chatTie" by code_simp
  have e: "length ([] :: ChatMessage list) < 2" by simp
  have t: "map trend (calculateKeywordTrends chatTie keywordsTie) = [rising, declining, stable]"
    by code_simp
  from calculateKeywordTrends_spec [of chatTie keywordsTie] h
  have "sorted_wrt (\<lambda>x y. frequency y \<le> frequency x) (calculateKeywordTrends chatTie keywordsTie)"
    unfolding Let_def by blast
  moreover from calculateKeywordTrends_spec [of "[]" keywordsTie] e
  have "calculateKeywordTrends [] keywordsTie = []" by blast
  ultimately show ?thesis using h e t by blast
qed

section \<open>Properties of the host identification\<close>

lemma findOwner_find:
  "findOwner ms = map_option author (find (hasBadge ''owner'') ms)"
  by (induction ms) simp_all

lemma findModerator_find:
  "findModerator all ms =
     map_option author
       (find (\<lambda>m. hasBadge ''moderator'' m \<and>
                  (of_nat (authorCount all (author m)) :: rat) > max 5 (of_nat (length all) / 100)) ms)"
  by (induction ms) (simp_all add: authorCount_def Let_def)

lemma countAuthors_snoc:
  "countAuthors (ms @ [m]) = bumpCount (countAuthors ms) (author m)"
  by (simp add: countAuthors_def)

lemma countAuthors_Nil: "countAuthors [] = []"
  by (simp add: countAuthors_def)

lemma keys_bumpCount:
  "map fst (bumpCount L a) = (if a \<in> set (map fst L) then map fst L else map fst L @ [a])"
  by (simp add: bumpCount_def update_keys)

lemma countAuthors_keys: "set (map fst (countAuthors ms)) = author ` set ms"
proof (induction ms rule: rev_induct)
  case Nil
  then show ?case by (simp add: countAuthors_Nil)
next
  case (snoc m ms)
  then show ?case by (auto simp: countAuthors_snoc keys_bumpCount)
qed

lemma countAuthors_distinct: "distinct (map fst (countAuthors ms))"
proof (induction ms rule: rev_induct)
  case Nil
  then show ?case by (simp add: countAuthors_Nil)
next
  case (snoc m ms)
  then show ?case by (simp add: countAuthors_snoc keys_bumpCount)
qed

lemma countAuthors_lookup:
  "map_of (countAuthors ms) a =
     (if a \<in> author ` set ms then Some (authorCount ms a) else None)"
proof (induction ms rule: rev_induct)
  case Nil
  then show ?case by (simp add: countAuthors_Nil)
next
  case (snoc m ms)
  show ?case
  proof (cases "a = author m")
    case True
    have "filter (\<lambda>x. author x = author m) ms = []" if "author m \<notin> author ` set ms"
      using that by (metis (mono_tags, lifting) filter_False imageI)
    then show ?thesis
      using snoc True
      by (simp add: countAuthors_snoc bumpCount_def update_conv' authorCount_def)
  next
    case False
    then show ?thesis
      using snoc by (auto simp: countAuthors_snoc bumpCount_def update_conv' authorCount_def)
  qed
qed

lemma countAuthors_entry:
  assumes "e \<in> set (countAuthors ms)"
  shows "snd e = authorCount ms (fst e)" and "0 < snd e" and "fst e \<in> author ` set ms"
proof -
  have "map_of (countAuthors ms) (fst e) = Some (snd e)"
    using assms countAuthors_distinct by (metis map_of_eq_Some_iff prod.collapse)
  then have *: "fst e \<in> author ` set ms \<and> snd e = authorCount ms (fst e)"
    by (simp add: countAuthors_lookup split: if_splits)
  then show "snd e = authorCount ms (fst e)" and "fst e \<in> author ` set ms" by simp_all
  from * obtain m where "m \<in> set ms" "author m = fst e" by auto
  then have "filter (\<lambda>x. author x = fst e) ms \<noteq> []" by (auto simp: filter_empty_conv)
  then show "0 < snd e" using * by (simp add: authorCount_def)
qed

lemma countAuthors_as_map:
  "countAuthors ms = map (\<lambda>a. (a, authorCount ms a)) (map fst (countAuthors ms))"
proof -
  have "map (\<lambda>e. (fst e, authorCount ms (fst e))) (countAuthors ms) = map (\<lambda>e. e) (countAuthors ms)"
    by (rule map_cong) (auto simp: countAuthors_entry(1)[symmetric])
  then show ?thesis by (simp add: o_def)
qed

lemma find_snoc:
  "find P (xs @ [x]) = (case find P xs of Some y \<Rightarrow> Some y | None \<Rightarrow> if P x then Some x else None)"
  by (induction xs) simp_all

lemma find_keys_countAuthors:
  "find P (map fst (countAuthors ms)) = find P (map author ms)"
proof (induction ms rule: rev_induct)
  case Nil
  then show ?case by (simp add: countAuthors_Nil)
next
  case (snoc m ms)
  show ?case
  proof (cases "author m \<in> set (map fst (countAuthors ms))")
    case True
    then have in_ms: "author m \<in> set (map author ms)" using countAuthors_keys by simp
    have "find P (map author ms @ [author m]) = find P (map author ms)"
    proof (cases "find P (map author ms)")
      case None
      then have "\<not> P (author m)" using in_ms by (auto simp: find_None_iff)
      with None show ?thesis by (simp add: find_snoc)
    next
      case (Some y)
      then show ?thesis by (simp add: find_snoc)
    qed
    with True snoc show ?thesis by (simp add: countAuthors_snoc keys_bumpCount)
  next
    case False
    with snoc show ?thesis by (simp add: countAuthors_snoc keys_bumpCount find_snoc)
  qed
qed

lemma pickTop_fold:
  fixes L :: "(string \<times> nat) list"
  shows
  "foldl (\<lambda>best entry. if snd entry > snd best then (fst entry, snd entry) else best) b0 L =
     (case find (\<lambda>e. snd e > snd b0 \<and> (\<forall>e' \<in> set L. snd e' \<le> snd e)) L of
        None \<Rightarrow> b0 | Some e \<Rightarrow> e)"
proof (induction L arbitrary: b0)
  case Nil
  then show ?case by simp
next
  case (Cons e L)
  show ?case
  proof (cases "snd e > snd b0")
    case gt: True
    show ?thesis
    proof (cases "\<forall>e' \<in> set L. snd e' \<le> snd e")
      case True
      then have "\<not> (\<exists>x. x \<in> set L \<and> (snd x > snd e \<and> (\<forall>e' \<in> set L. snd e' \<le> snd x)))"
        by (meson leD)
      then have "find (\<lambda>x. snd x > snd e \<and> (\<forall>e' \<in> set L. snd e' \<le> snd x)) L = None"
        unfolding find_None_iff .
      then show ?thesis using gt True Cons.IH[of e] by simp
    next
      case False
      then obtain b where b: "b \<in> set L" "snd b > snd e" by force
      have "find (\<lambda>x. snd x > snd b0 \<and> (\<forall>e' \<in> set (e # L). snd e' \<le> snd x)) L
          = find (\<lambda>x. snd x > snd e \<and> (\<forall>e' \<in> set L. snd e' \<le> snd x)) L"
      proof (rule find_cong[OF refl])
        fix x assume "x \<in> set L"
        show "(snd x > snd b0 \<and> (\<forall>e' \<in> set (e # L). snd e' \<le> snd x))
            = (snd x > snd e \<and> (\<forall>e' \<in> set L. snd e' \<le> snd x))"
          using b gt by fastforce
      qed
      moreover have "find (\<lambda>x. snd x > snd e \<and> (\<forall>e' \<in> set L. snd e' \<le> snd x)) L \<noteq> None"
      proof -
        have ne: "snd ` set L \<noteq> {}" and fin: "finite (snd ` set L)" using b by auto
        from Max_in[OF fin ne] obtain x where x: "x \<in> set L" "snd x = Max (snd ` set L)"
          by auto
        have "\<forall>e' \<in> set L. snd e' \<le> snd x" using x fin by simp
        moreover from this b have "snd x > snd e" by fastforce
        ultimately show ?thesis using x(1) unfolding find_None_iff by blast
      qed
      ultimately show ?thesis using gt False Cons.IH[of e] by auto
    qed
  next
    case le: False
    have "find (\<lambda>x. snd x > snd b0 \<and> (\<forall>e' \<in> set (e # L). snd e' \<le> snd x)) L
          = find (\<lambda>x. snd x > snd b0 \<and> (\<forall>e' \<in> set L. snd e' \<le> snd x)) L"
    proof (rule find_cong[OF refl])
      fix x assume "x \<in> set L"
      show "(snd x > snd b0 \<and> (\<forall>e' \<in> set (e # L). snd e' \<le> snd x))
            = (snd x > snd b0 \<and> (\<forall>e' \<in> set L. snd e' \<le> snd x))"
        using le by fastforce
    qed
    then show ?thesis using le Cons.IH[of b0] by simp
  qed
qed

lemma pickTop_first_max:
  fixes L :: "(string \<times> nat) list"
  assumes "\<forall>e \<in> set L. 0 < snd e"
  shows "pickTop L = (case find (\<lambda>e. \<forall>e' \<in> set L. snd e' \<le> snd e) L of
                        None \<Rightarrow> ([], 0) | Some e \<Rightarrow> e)"
proof -
  have "find (\<lambda>e. snd e > snd (([], 0) :: string \<times> nat) \<and> (\<forall>e' \<in> set L. snd e' \<le> snd e)) L
      = find (\<lambda>e. \<forall>e' \<in> set L. snd e' \<le> snd e) L"
    by (rule find_cong[OF refl]) (use assms in auto)
  then show ?thesis unfolding pickTop_def by (simp add: pickTop_fold)
qed

lemma find_map_list: "find P (map f xs) = map_option f (find (P \<circ> f) xs)"
  by (induction xs) simp_all

lemma pickTop_countAuthors:
  "pickTop (countAuthors ms) =
     (case find (\<lambda>m. \<forall>m' \<in> set ms. authorCount ms (author m') \<le> authorCount ms (author m)) ms of
        None \<Rightarrow> ([], 0)
      | Some m \<Rightarrow> (author m, authorCount ms (author m)))"
proof -
  let ?L = "countAuthors ms"
  let ?f = "\<lambda>a. (a, authorCount ms a)"
  let ?Q = "\<lambda>e :: string \<times> nat. \<forall>e' \<in> set ?L. snd e' \<le> snd e"
  let ?R = "\<lambda>a. \<forall>m' \<in> set ms. authorCount ms (author m') \<le> authorCount ms a"
  have pos: "\<forall>e \<in> set ?L. 0 < snd e" using countAuthors_entry(2) by blast
  have QR: "?Q (?f a) = ?R a" for a
  proof
    assume q: "?Q (?f a)"
    show "?R a"
    proof
      fix m' assume "m' \<in> set ms"
      then have "author m' \<in> set (map fst ?L)" using countAuthors_keys by auto
      then obtain e where e: "e \<in> set ?L" "fst e = author m'" by auto
      then have "snd e = authorCount ms (author m')" using countAuthors_entry(1) by metis
      with q e show "authorCount ms (author m') \<le> authorCount ms a" by auto
    qed
  next
    assume r: "?R a"
    show "?Q (?f a)"
    proof
      fix e' assume e': "e' \<in> set ?L"
      then obtain m' where "m' \<in> set ms" "author m' = fst e'"
        using countAuthors_entry(3)[of e' ms] by auto
      then show "snd e' \<le> snd (?f a)" using r countAuthors_entry(1)[OF e'] by auto
    qed
  qed
  have "find ?Q ?L = find ?Q (map ?f (map fst ?L))" using countAuthors_as_map by simp
  also have "\<dots> = map_option ?f (find (?Q \<circ> ?f) (map fst ?L))" by (rule find_map_list)
  also have "?Q \<circ> ?f = ?R" using QR by (auto simp: fun_eq_iff)
  also have "find ?R (map fst ?L) = find ?R (map author ms)" by (rule find_keys_countAuthors)
  also have "\<dots> = map_option author (find (?R \<circ> author) ms)" by (rule find_map_list)
  finally have "find ?Q ?L = map_option ?f (map_option author (find (?R \<circ> author) ms))" .
  then show ?thesis
    unfolding pickTop_first_max[OF pos]
    by (simp add: o_def split: option.splits)
qed

lemma countAuthors_empty_iff: "length (countAuthors ms) = 0 \<longleftrightarrow> ms = []"
proof -
  have "set (map fst (countAuthors ms)) = {} \<longleftrightarrow> ms = []"
    unfolding countAuthors_keys by simp
  then show ?thesis by simp
qed

text \<open>
  C4, as the code decides it. \<open>identifyHost\<close> follows a strict priority order: a supplied
  non-empty manual name is returned as it is; otherwise the author of the first message with
  an owner badge; otherwise the author of the first message that has a moderator badge and
  whose author wrote more than \<open>max 5 (n / 100)\<close> messages; otherwise the author of the
  first message whose author reaches the highest message count, accepted only if that count
  exceeds 5 percent of all messages. When no host is identified the orchestrator reports
  the name Unknown Host.
\<close>

theorem identifyHost_priority:
  "identifyHost ms manual =
     (if manual \<noteq> None \<and> manual \<noteq> Some [] then manual
      else case find (hasBadge ''owner'') ms of
             Some m \<Rightarrow> Some (author m)
           | None \<Rightarrow>
               (case find (\<lambda>m. hasBadge ''moderator'' m \<and>
                              (of_nat (authorCount ms (author m)) :: rat)
                                > max 5 (of_nat (length ms) / 100)) ms of
                  Some m \<Rightarrow> Some (author m)
                | None \<Rightarrow>
                    (case find (\<lambda>m. \<forall>m' \<in> set ms. authorCount ms (author m')
                                                     \<le> authorCount ms (author m)) ms of
                       None \<Rightarrow> None
                     | Some m \<Rightarrow>
                         if (of_nat (authorCount ms (author m)) :: rat)
                              > of_nat (length ms) * (5 / 100)
                         then Some (author m) else None)))
   \<and> (identifyHost ms manual = None \<longrightarrow> orchestratorHostName ms manual = ''Unknown Host'')"
proof
  show "identifyHost ms manual = None \<longrightarrow> orchestratorHostName ms manual = ''Unknown Host''"
    by (simp add: orchestratorHostName_def)
next
  let ?top = "find (\<lambda>m. \<forall>m' \<in> set ms. authorCount ms (author m')
                                                     \<le> authorCount ms (author m)) ms"
  have fallback:
    "(let authorCounts = countAuthors ms
      in if length authorCounts = 0 then None
         else (let best = pickTop authorCounts; topAuthor = fst best; maxCount = snd best
               in if (of_nat maxCount :: rat) > of_nat (length ms) * (5 / 100)
                  then Some topAuthor else None))
     = (case ?top of
          None \<Rightarrow> None
        | Some m \<Rightarrow>
            if (of_nat (authorCount ms (author m)) :: rat) > of_nat (length ms) * (5 / 100)
            then Some (author m) else None)"
  proof (cases "ms = []")
    case True
    then show ?thesis by (simp add: countAuthors_Nil)
  next
    case False
    then have "length (countAuthors ms) \<noteq> 0" using countAuthors_empty_iff by blast
    then show ?thesis
      by (simp add: Let_def pickTop_countAuthors split: option.splits)
  qed
  show "identifyHost ms manual =
     (if manual \<noteq> None \<and> manual \<noteq> Some [] then manual
      else case find (hasBadge ''owner'') ms of
             Some m \<Rightarrow> Some (author m)
           | None \<Rightarrow>
               (case find (\<lambda>m. hasBadge ''moderator'' m \<and>
                              (of_nat (authorCount ms (author m)) :: rat)
                                > max 5 (of_nat (length ms) / 100)) ms of
                  Some m \<Rightarrow> Some (author m)
                | None \<Rightarrow>
                    (case ?top of
                       None \<Rightarrow> None
                     | Some m \<Rightarrow>
                         if (of_nat (authorCount ms (author m)) :: rat)
                              > of_nat (length ms) * (5 / 100)
                         then Some (author m) else None)))"
    unfolding identifyHost_def fallback findOwner_find findModerator_find
    by (simp split: option.splits)
qed

theorem identifyHost_priority_witness:
  "identifyHost chatTie (Some ''Dana'') = Some ''Dana''
   \<and> identifyHost chatOwner None = Some ''Alice''
   \<and> identifyHost chatModerator None = Some ''Mod''
   \<and> identifyHost chatTie None = Some ''Alice''
   \<and> identifyHost chatCrowd None = None
   \<and> orchestratorHostName chatCrowd None = ''Unknown Host''"
proof -
  note crowd = identifyHost_priority [of chatCrowd None]
  have m: "identifyHost chatTie (Some ''Dana'') = Some ''Dana''"
    by (rule trans [OF conjunct1 [OF identifyHost_priority [of chatTie "Some ''Dana''"]]])
      code_simp
  have ow: "identifyHost chatOwner None = Some ''Alice''"
    by (rule trans [OF conjunct1 [OF identifyHost_priority [of chatOwner None]]]) code_simp
  have mo: "identifyHost chatModerator None = Some ''Mod''"
    by (rule trans [OF conjunct1 [OF identifyHost_priority [of chatModerator None]]]) code_simp
  have a: "identifyHost chatTie None = Some ''Alice''"
    by (rule trans [OF conjunct1 [OF identifyHost_priority [of chatTie None]]]) code_simp
  have b: "identifyHost chatCrowd None = None"
    by (rule trans [OF conjunct1 [OF crowd]]) code_simp
  from m ow mo a b conjunct2 [OF crowd] show ?thesis by simp
qed

text \<open>
  The claim as written lets a tie for the highest count end without a host. On
  \<open>chatTie\<close> Alice and Bob tie with two messages each, and Alice, whose first message comes
  first, is returned.
\<close>

theorem identifyHost_tie_counterexample:
  "authorCount chatTie ''Alice'' = 2 \<and> authorCount chatTie ''Bob'' = 2
   \<and> authorCount chatTie ''Carol'' = 1
   \<and> identifyHost chatTie None = Some ''Alice''
   \<and> orchestratorHostName chatTie None = ''Alice''"
  by code_simp

section \<open>Properties of the conversation threader\<close>

subsection \<open>The look-ahead loop\<close>

lemma filter_unmarked_insert:
  assumes "j \<notin> set js"
  shows "filter (\<lambda>k. k \<notin> insert j P) js = filter (\<lambda>k. k \<notin> P) js"
  by (rule filter_cong) (use assms in auto)

lemma lookAhead_fields:
  assumes "distinct js"
  shows "threadMessages (lookAhead sm w s js st)
           = threadMessages st @ map (\<lambda>j. sm ! j)
               (takeWhile (\<lambda>j. timeDiffOf s (sm ! j) \<le> w)
                  (filter (\<lambda>j. j \<notin> processedIndices st) js))
       \<and> processedIndices (lookAhead sm w s js st)
           = processedIndices st \<union> set
               (takeWhile (\<lambda>j. timeDiffOf s (sm ! j) \<le> w)
                  (filter (\<lambda>j. j \<notin> processedIndices st) js))
       \<and> la_participants (lookAhead sm w s js st)
           = participantsFrom (la_participants st) (map (\<lambda>j. sm ! j)
               (takeWhile (\<lambda>j. timeDiffOf s (sm ! j) \<le> w)
                  (filter (\<lambda>j. j \<notin> processedIndices st) js)))"
  using assms
proof (induction js arbitrary: st)
  case Nil
  then show ?case by (simp add: participantsFrom_def)
next
  case (Cons j js)
  from Cons.prems have d: "distinct js" and nj: "j \<notin> set js" by simp_all
  show ?case
  proof (cases "j \<in> processedIndices st")
    case True
    then show ?thesis using Cons.IH[OF d, of st] by simp
  next
    case False
    show ?thesis
    proof (cases "timeDiffOf s (sm ! j) > w")
      case True
      then show ?thesis using False by (simp add: Let_def participantsFrom_def)
    next
      case within: False
      define st' where "st' = st\<lparr> threadMessages := threadMessages st @ [sm ! j],
                             la_participants :=
                               addParticipant (author (fst (sm ! j))) (la_participants st),
                             processedIndices := insert j (processedIndices st) \<rparr>"
      have step: "lookAhead sm w s (j # js) st = lookAhead sm w s js st'"
        using False within by (simp add: Let_def st'_def)
      have f: "filter (\<lambda>k. k \<notin> processedIndices st') js
                 = filter (\<lambda>k. k \<notin> processedIndices st) js"
        using filter_unmarked_insert[OF nj] by (simp add: st'_def)
      show ?thesis
        unfolding step
        using Cons.IH[OF d, of st'] False within
        by (simp add: f) (simp add: st'_def participantsFrom_def)
    qed
  qed
qed

lemma takeWhile_upt_prefix:
  "takeWhile P [a ..< b] = [a ..< a + length (takeWhile P [a ..< b])]"
proof -
  define k where "k = length (takeWhile P [a ..< b])"
  have "k \<le> length [a ..< b]" unfolding k_def by (rule length_takeWhile_le)
  then have "k \<le> b - a" by simp
  then have "a + k \<le> b \<or> k = 0" by linarith
  then show ?thesis
  proof
    assume "a + k \<le> b"
    then have "take k [a ..< b] = [a ..< a + k]" by (rule take_upt)
    moreover have "takeWhile P [a ..< b] = take k [a ..< b]"
      unfolding k_def by (rule takeWhile_eq_take)
    ultimately show ?thesis unfolding k_def by simp
  next
    assume "k = 0"
    then show ?thesis unfolding k_def by simp
  qed
qed

lemma groupAt_interval: "groupAt sm w i = [i ..< i + length (groupAt sm w i)]"
proof -
  define t where
    "t = takeWhile (\<lambda>j. timeDiffOf (sm ! i) (sm ! j) \<le> w) [i + 1 ..< min (length sm) (i + 20)]"
  define k where "k = length t"
  have g: "groupAt sm w i = i # t" by (simp add: groupAt_def t_def)
  have "t = [i + 1 ..< i + 1 + k]" unfolding t_def k_def by (rule takeWhile_upt_prefix)
  then have t: "t = [Suc i ..< Suc (i + k)]" by simp
  have "[i ..< Suc (i + k)] = i # [Suc i ..< Suc (i + k)]" by (rule upt_conv_Cons) simp
  with t have "i # t = [i ..< Suc (i + k)]" by simp
  moreover have "i + length (i # t) = Suc (i + k)" by (simp add: k_def)
  ultimately show ?thesis unfolding g by (simp only:)
qed

lemma groupAt_bounds:
  assumes "i < length sm"
  shows "1 \<le> length (groupAt sm w i)" and "length (groupAt sm w i) \<le> 20"
    and "i + length (groupAt sm w i) \<le> length sm"
proof -
  let ?t = "takeWhile (\<lambda>j. timeDiffOf (sm ! i) (sm ! j) \<le> w) [i + 1 ..< min (length sm) (i + 20)]"
  have "length ?t \<le> length [i + 1 ..< min (length sm) (i + 20)]" by (rule length_takeWhile_le)
  then have "length ?t \<le> min (length sm) (i + 20) - (i + 1)" by simp
  then show "1 \<le> length (groupAt sm w i)" and "length (groupAt sm w i) \<le> 20"
    and "i + length (groupAt sm w i) \<le> length sm"
    using assms by (simp_all add: groupAt_def)
qed

lemma gather_fields:
  "threadMessages (gather sm w pre i)
     = map (\<lambda>j. sm ! j)
         (i # takeWhile (\<lambda>j. timeDiffOf (sm ! i) (sm ! j) \<le> w)
                (filter (\<lambda>j. j \<notin> pre) [i + 1 ..< min (length sm) (i + 20)]))"
  "processedIndices (gather sm w pre i)
     = pre \<union> set (takeWhile (\<lambda>j. timeDiffOf (sm ! i) (sm ! j) \<le> w)
                (filter (\<lambda>j. j \<notin> pre) [i + 1 ..< min (length sm) (i + 20)]))"
  "la_participants (gather sm w pre i)
     = participantsFrom [] (map (\<lambda>j. sm ! j)
         (i # takeWhile (\<lambda>j. timeDiffOf (sm ! i) (sm ! j) \<le> w)
                (filter (\<lambda>j. j \<notin> pre) [i + 1 ..< min (length sm) (i + 20)])))"
  using lookAhead_fields[of "[i + 1 ..< min (length sm) (i + 20)]" sm w "sm ! i"
      "\<lparr> threadMessages = [sm ! i], la_participants = [author (fst (sm ! i))],
         processedIndices = pre \<rparr>"]
  by (simp_all add: gather_def Let_def participantsFrom_def addParticipant_def)

lemma gather_unmarked:
  assumes "\<forall>k \<in> pre. k \<le> i"
  shows "threadMessages (gather sm w pre i) = map (\<lambda>j. sm ! j) (groupAt sm w i)"
    and "processedIndices (gather sm w pre i) = pre \<union> set (tl (groupAt sm w i))"
    and "la_participants (gather sm w pre i)
           = participantsFrom [] (map (\<lambda>j. sm ! j) (groupAt sm w i))"
proof -
  have "filter (\<lambda>j. j \<notin> pre) [i + 1 ..< min (length sm) (i + 20)]
          = [i + 1 ..< min (length sm) (i + 20)]"
    by (rule filter_True) (use assms in fastforce)
  then show "threadMessages (gather sm w pre i) = map (\<lambda>j. sm ! j) (groupAt sm w i)"
    and "processedIndices (gather sm w pre i) = pre \<union> set (tl (groupAt sm w i))"
    and "la_participants (gather sm w pre i)
           = participantsFrom [] (map (\<lambda>j. sm ! j) (groupAt sm w i))"
    by (simp_all add: gather_fields groupAt_def)
qed

subsection \<open>The scan as a whole\<close>

lemma indexOf_nth:
  assumes "distinct xs" and "j < length xs"
  shows "indexOf xs (xs ! j) = Some j"
  using assms
proof (induction xs arbitrary: j)
  case Nil
  then show ?case by simp
next
  case (Cons x xs)
  show ?case
  proof (cases j)
    case 0
    then show ?thesis by simp
  next
    case (Suc k)
    with Cons.prems have "xs ! k \<in> set xs" and "x \<notin> set xs" by simp_all
    then have "x \<noteq> xs ! k" by blast
    with Suc Cons show ?thesis by simp
  qed
qed

lemma markProcessed_indices:
  assumes "distinct sm" and "\<forall>j \<in> set js. j < length sm"
  shows "markProcessed sm P (map (\<lambda>j. sm ! j) js) = P \<union> set js"
  using assms(2)
proof (induction js arbitrary: P)
  case Nil
  then show ?case by (simp add: markProcessed_def)
next
  case (Cons j js)
  then have "indexOf sm (sm ! j) = Some j" using indexOf_nth[OF assms(1)] by simp
  moreover have "markProcessed sm (insert j P) (map (\<lambda>j. sm ! j) js) = insert j P \<union> set js"
    using Cons by simp
  ultimately show ?case by (simp add: markProcessed_def)
qed

lemma seedStep_marked: "i \<in> processed st \<Longrightarrow> seedStep sm w st i = st"
  by (simp add: seedStep_def)

lemma foldl_seedStep_marked:
  "set js \<subseteq> processed st \<Longrightarrow> foldl (seedStep sm w) st js = st"
  by (induction js) (simp_all add: seedStep_marked)

lemma seedStep_unmarked:
  assumes "distinct sm" and "i < length sm" and "\<forall>k \<in> processed st. k < i"
  shows "seedStep sm w st i =
           (if 3 \<le> length (groupAt sm w i)
            then \<lparr> threads = threads st @ [threadOf sm (threadCounter st) (groupAt sm w i)],
                   processed = processed st \<union> set (groupAt sm w i),
                   threadCounter = threadCounter st + 1 \<rparr>
            else st\<lparr> processed := processed st \<union> set (tl (groupAt sm w i)) \<rparr>)"
proof -
  let ?g = "groupAt sm w i"
  have un: "i \<notin> processed st" using assms(3) by auto
  have le: "\<forall>k \<in> processed st. k \<le> i" using assms(3) by auto
  note ga = gather_unmarked[OF le, of sm w]
  have gne: "?g \<noteq> []" by (simp add: groupAt_def)
  have bound: "\<forall>j \<in> set ?g. j < length sm"
  proof
    fix j assume "j \<in> set ?g"
    then have "j \<in> set [i ..< i + length ?g]" using groupAt_interval[of sm w i] by simp
    then show "j < length sm" using groupAt_bounds(3)[OF assms(2), of w] by simp
  qed
  have mark: "markProcessed sm (processed st \<union> set (tl ?g)) (map (\<lambda>j. sm ! j) ?g)
                = processed st \<union> set ?g"
  proof -
    have "set (tl ?g) \<subseteq> set ?g" by (simp add: groupAt_def subset_insertI)
    then show ?thesis using markProcessed_indices[OF assms(1) bound] by auto
  qed
  have hd: "hd (map (\<lambda>j. sm ! j) ?g) = sm ! hd ?g" using gne by (simp add: hd_map)
  have lst: "last (map (\<lambda>j. sm ! j) ?g) = sm ! last ?g" using gne by (simp add: last_map)
  show ?thesis
    using un
    by (simp add: seedStep_def Let_def ga mark hd lst threadOf_def o_def)
qed

lemma scan_from:
  assumes "distinct sm"
  shows "i \<le> length sm \<Longrightarrow> \<forall>k \<in> processed st. k < i \<Longrightarrow>
         threads (foldl (seedStep sm w) st [i ..< length sm])
           = threads st @ emitFrom sm w i (threadCounter st)"
proof (induction "length sm - i" arbitrary: i st rule: less_induct)
  case less
  show ?case
  proof (cases "i = length sm")
    case True
    then show ?thesis by (subst emitFrom.simps) simp
  next
    case False
    with less.prems have lt: "i < length sm" by simp
    let ?g = "groupAt sm w i"
    let ?n = "length ?g"
    let ?st1 = "seedStep sm w st i"
    have n1: "1 \<le> ?n" and nn: "i + ?n \<le> length sm"
      using groupAt_bounds[OF lt, of w] by simp_all
    have gi: "set ?g = {i ..< i + ?n}" using groupAt_interval[of sm w i] by (metis atLeastLessThan_upt)
    have tli: "set (tl ?g) = {Suc i ..< i + ?n}"
    proof -
      have "tl [i ..< i + ?n] = [Suc i ..< i + ?n]" by (simp add: tl_upt)
      then have "tl ?g = [Suc i ..< i + ?n]" using groupAt_interval[of sm w i] by simp
      then show ?thesis by simp
    qed
    note step = seedStep_unmarked[OF assms lt less.prems(2), of w]
    have p1: "processed ?st1 = processed st \<union> (if 3 \<le> ?n then set ?g else set (tl ?g))"
      unfolding step by simp
    have split: "[i ..< length sm] = i # [Suc i ..< i + ?n] @ [i + ?n ..< length sm]"
    proof -
      have "[i ..< length sm] = [i ..< i + ?n] @ [i + ?n ..< length sm]"
        using nn by (metis le_add1 le_Suc_ex upt_add_eq_append)
      moreover have "[i ..< i + ?n] = i # [Suc i ..< i + ?n]"
        by (rule upt_conv_Cons) (use n1 in linarith)
      ultimately show ?thesis by simp
    qed
    have skip: "foldl (seedStep sm w) ?st1 [Suc i ..< i + ?n] = ?st1"
      by (rule foldl_seedStep_marked) (auto simp: p1 gi tli)
    have below: "\<forall>k \<in> processed ?st1. k < i + ?n"
      using less.prems(2) n1 by (auto simp: p1 gi tli)
    have "threads (foldl (seedStep sm w) st [i ..< length sm])
            = threads (foldl (seedStep sm w) ?st1 [i + ?n ..< length sm])"
      by (simp add: split skip)
    also have "\<dots> = threads ?st1 @ emitFrom sm w (i + ?n) (threadCounter ?st1)"
      by (rule less.hyps) (use n1 lt nn below in simp_all)
    also have "\<dots> = threads st @ emitFrom sm w i (threadCounter st)"
      unfolding step using lt by (subst (2) emitFrom.simps) simp
    finally show ?thesis .
  qed
qed

lemma sortWithIndex_distinct: "distinct (sortWithIndex ms)"
  by (simp add: sortWithIndex_def sortAscBy_def distinct_zipI2)

lemma sortWithIndex_length: "length (sortWithIndex ms) = length ms"
  by (simp add: sortWithIndex_def sortAscBy_def)

lemma detectThreads_emitFrom:
  "detectThreads ms w = (if length ms < 3 then [] else emitFrom (sortWithIndex ms) w 0 0)"
  using scan_from[OF sortWithIndex_distinct, of 0 ms
      "\<lparr> threads = [], processed = {}, threadCounter = 0 \<rparr>" w]
  by (simp add: detectThreads_def runSeeds_def)

lemma emitFrom_member:
  "t \<in> set (emitFrom sm w i c) \<Longrightarrow>
     \<exists>s c'. i \<le> s \<and> s < length sm \<and> 3 \<le> length (groupAt sm w s)
            \<and> t = threadOf sm c' (groupAt sm w s)"
proof (induction sm w i c rule: emitFrom.induct)
  case (1 sm w i c)
  let ?g = "groupAt sm w i"
  show ?case
  proof (cases "length sm \<le> i")
    case True
    with "1.prems" show ?thesis by (subst (asm) emitFrom.simps) simp
  next
    case False
    then have lt: "i < length sm" by simp
    show ?thesis
    proof (cases "3 \<le> length ?g")
      case True
      from "1.prems" have "t = threadOf sm c ?g \<or> t \<in> set (emitFrom sm w (i + length ?g) (c + 1))"
        using False True by (subst (asm) emitFrom.simps) auto
      then show ?thesis
      proof
        assume "t = threadOf sm c ?g"
        with lt True show ?thesis by blast
      next
        assume "t \<in> set (emitFrom sm w (i + length ?g) (c + 1))"
        from "1.IH"(1)[OF False True this] obtain s c' where
          "i + length ?g \<le> s" "s < length sm" "3 \<le> length (groupAt sm w s)"
          "t = threadOf sm c' (groupAt sm w s)" by blast
        moreover from this(1) have "i \<le> s" by linarith
        ultimately show ?thesis by blast
      qed
    next
      case short: False
      from "1.prems" have "t \<in> set (emitFrom sm w (i + length ?g) c)"
        using False short by (subst (asm) emitFrom.simps) auto
      from "1.IH"(2)[OF False short this] obtain s c' where
        "i + length ?g \<le> s" "s < length sm" "3 \<le> length (groupAt sm w s)"
        "t = threadOf sm c' (groupAt sm w s)" by blast
      moreover from this(1) have "i \<le> s" by linarith
      ultimately show ?thesis by blast
    qed
  qed
qed

lemma nth_key_inj:
  assumes "distinct (map f xs)" and "a < length xs" and "b < length xs"
    and "f (xs ! a) = f (xs ! b)"
  shows "a = b"
proof -
  have "map f xs ! a = map f xs ! b" using assms by simp
  moreover have "a < length (map f xs)" and "b < length (map f xs)" using assms by simp_all
  ultimately show ?thesis using nth_eq_iff_index_eq[OF assms(1)] by blast
qed

lemma threadOf_ids_range:
  assumes "t \<in> set (emitFrom sm w i c)" and "x \<in> set (thr_messages t)"
  shows "\<exists>j. i \<le> j \<and> j < length sm \<and> x = msg_id (fst (sm ! j))"
proof -
  from emitFrom_member[OF assms(1)] obtain s c' where
    s: "i \<le> s" "s < length sm" and t: "t = threadOf sm c' (groupAt sm w s)" by blast
  from assms(2) t obtain j where j: "j \<in> set (groupAt sm w s)" "x = msg_id (fst (sm ! j))"
    by (auto simp: threadOf_def)
  from j(1) have "j \<in> set [s ..< s + length (groupAt sm w s)]"
    using groupAt_interval[of sm w s] by simp
  then have "s \<le> j" and jn: "j < length sm"
    using groupAt_bounds(3)[OF s(2), of w] by simp_all
  with s(1) have "i \<le> j" by linarith
  with jn j(2) show ?thesis by blast
qed

lemma emitFrom_distinct_ids:
  assumes "distinct (map (\<lambda>p. msg_id (fst p)) sm)"
  shows "distinct (concat (map thr_messages (emitFrom sm w i c)))"
  using assms
proof (induction sm w i c rule: emitFrom.induct)
  case (1 sm w i c)
  let ?g = "groupAt sm w i"
  let ?f = "\<lambda>j. msg_id (fst (sm ! j))"
  note d = "1.prems"
  show ?case
  proof (cases "length sm \<le> i")
    case True
    then show ?thesis by (subst emitFrom.simps) simp
  next
    case False
    then have lt: "i < length sm" by simp
    show ?thesis
    proof (cases "3 \<le> length ?g")
      case True
      let ?rest = "emitFrom sm w (i + length ?g) (c + 1)"
      have unfold: "emitFrom sm w i c = threadOf sm c ?g # ?rest"
        using False True by (subst emitFrom.simps) simp
      have gi: "?g = [i ..< i + length ?g]" by (rule groupAt_interval)
      have gb: "\<forall>j \<in> set ?g. i \<le> j \<and> j < i + length ?g \<and> j < length sm"
      proof
        fix j assume "j \<in> set ?g"
        then have "j \<in> set [i ..< i + length ?g]" using gi by simp
        then show "i \<le> j \<and> j < i + length ?g \<and> j < length sm"
          using groupAt_bounds(3)[OF lt, of w] by simp
      qed
      have inj: "inj_on ?f (set ?g)"
      proof (rule inj_onI)
        fix a b assume "a \<in> set ?g" "b \<in> set ?g" "?f a = ?f b"
        then show "a = b" using nth_key_inj[OF d, of a b] gb by blast
      qed
      have dg: "distinct ?g" using gi by (metis distinct_upt)
      have head: "distinct (thr_messages (threadOf sm c ?g))"
        using dg inj by (simp add: threadOf_def distinct_map)
      have tail: "distinct (concat (map thr_messages ?rest))"
        by (rule "1.IH"(1)[OF False True d])
      have disj: "set (thr_messages (threadOf sm c ?g)) \<inter> set (concat (map thr_messages ?rest)) = {}"
      proof (rule ccontr)
        assume "\<not> ?thesis"
        then obtain x t where x: "x \<in> set (thr_messages (threadOf sm c ?g))"
          and t: "t \<in> set ?rest" "x \<in> set (thr_messages t)" by auto
        from x obtain a where a: "a \<in> set ?g" "x = ?f a" by (auto simp: threadOf_def)
        from threadOf_ids_range[OF t] obtain b where
          b: "i + length ?g \<le> b" "b < length sm" "x = ?f b" by blast
        from a gb have "a < i + length ?g" "a < length sm" by simp_all
        moreover have "a = b" using nth_key_inj[OF d \<open>a < length sm\<close> b(2)] a(2) b(3) by simp
        ultimately show False using b(1) by simp
      qed
      show ?thesis unfolding unfold using head tail disj by simp
    next
      case short: False
      have unfold: "emitFrom sm w i c = emitFrom sm w (i + length ?g) c"
        using False short by (subst emitFrom.simps) simp
      show ?thesis unfolding unfold by (rule "1.IH"(2)[OF False short d])
    qed
  qed
qed

lemma distinct_concat_disjoint:
  assumes "distinct (concat xss)" and "a < b" and "b < length xss"
  shows "set (xss ! a) \<inter> set (xss ! b) = {}"
  using assms
proof (induction xss arbitrary: a b)
  case Nil
  then show ?case by simp
next
  case (Cons xs xss)
  from Cons.prems(2,3) obtain b' where b': "b = Suc b'" "b' < length xss"
    by (cases b) simp_all
  show ?case
  proof (cases a)
    case 0
    have "set (xss ! b') \<subseteq> set (concat xss)" using nth_mem[OF b'(2)] by auto
    moreover have "set xs \<inter> set (concat xss) = {}" using Cons.prems(1) by simp
    ultimately show ?thesis using 0 b'(1) by auto
  next
    case (Suc a')
    with Cons.prems b' have "a' < b'" by simp
    moreover have "distinct (concat xss)" using Cons.prems(1) by simp
    ultimately show ?thesis using Cons.IH[of a' b'] b' Suc by simp
  qed
qed

lemma participantsFrom_nonempty:
  "ps \<noteq> [] \<or> tms \<noteq> [] \<Longrightarrow> participantsFrom ps tms \<noteq> []"
proof (induction tms arbitrary: ps)
  case Nil
  then show ?case by (simp add: participantsFrom_def)
next
  case (Cons tm tms)
  have "addParticipant (author (fst tm)) ps \<noteq> []" by (auto simp: addParticipant_def)
  then have "participantsFrom (addParticipant (author (fst tm)) ps) tms \<noteq> []"
    using Cons.IH by blast
  then show ?case by (simp add: participantsFrom_def)
qed

lemma sortWithIndex_ids:
  assumes "distinct (map msg_id ms)"
  shows "distinct (map (\<lambda>p. msg_id (fst p)) (sortWithIndex ms))"
proof -
  have "mset (map (\<lambda>p. msg_id (fst p)) (sortWithIndex ms))
          = mset (map (\<lambda>p. msg_id (fst p)) (zip ms [0 ..< length ms]))"
    by (simp add: sortWithIndex_def sortAscBy_def)
  moreover have "map (\<lambda>p. msg_id (fst p)) (zip ms [0 ..< length ms]) = map msg_id ms"
  proof -
    have z: "map fst (zip ms [0 ..< length ms]) = ms" by simp
    have "map (\<lambda>p. msg_id (fst p)) (zip ms [0 ..< length ms])
            = map msg_id (map fst (zip ms [0 ..< length ms]))"
      by (simp only: map_map o_def)
    then show ?thesis by (simp only: z)
  qed
  ultimately have "mset (map (\<lambda>p. msg_id (fst p)) (sortWithIndex ms)) = mset (map msg_id ms)"
    by simp
  then show ?thesis using assms mset_eq_imp_distinct_iff by blast
qed

subsection \<open>The claims about threads\<close>

text \<open>
  C5. For a message list with pairwise distinct message ids, every thread returned by
  \<open>detectThreads\<close> has a message count of at least 3, which is the number of its member
  ids, and at least one participant; no message id occurs in the member lists of two
  different returned threads; and fewer than three messages give no thread.
\<close>

theorem detectThreads_disjoint_threads:
  assumes "distinct (map msg_id ms)"
  shows "(\<forall>t \<in> set (detectThreads ms w).
            3 \<le> messageCount t \<and> messageCount t = length (thr_messages t)
            \<and> 1 \<le> length (participants t))
       \<and> (\<forall>a b. a < b \<and> b < length (detectThreads ms w) \<longrightarrow>
             set (thr_messages (detectThreads ms w ! a))
               \<inter> set (thr_messages (detectThreads ms w ! b)) = {})
       \<and> (length ms < 3 \<longrightarrow> detectThreads ms w = [])"
proof (cases "length ms < 3")
  case True
  then show ?thesis by (simp add: detectThreads_def)
next
  case False
  let ?sm = "sortWithIndex ms"
  have dt: "detectThreads ms w = emitFrom ?sm w 0 0"
    using False by (simp add: detectThreads_emitFrom)
  have each: "3 \<le> messageCount t \<and> messageCount t = length (thr_messages t)
            \<and> 1 \<le> length (participants t)" if "t \<in> set (emitFrom ?sm w 0 0)" for t
  proof -
    from emitFrom_member[OF that] obtain s c' where
      g: "3 \<le> length (groupAt ?sm w s)" and t: "t = threadOf ?sm c' (groupAt ?sm w s)"
      by blast
    from g have "map (\<lambda>j. ?sm ! j) (groupAt ?sm w s) \<noteq> []" by auto
    then have "participantsFrom [] (map (\<lambda>j. ?sm ! j) (groupAt ?sm w s)) \<noteq> []"
      using participantsFrom_nonempty by blast
    then have "1 \<le> length (participants t)"
      unfolding t by (cases "participants (threadOf ?sm c' (groupAt ?sm w s))")
        (simp_all add: threadOf_def)
    with g show ?thesis by (simp add: t threadOf_def)
  qed
  have d: "distinct (concat (map thr_messages (emitFrom ?sm w 0 0)))"
    by (rule emitFrom_distinct_ids) (rule sortWithIndex_ids[OF assms])
  have disj: "set (thr_messages (emitFrom ?sm w 0 0 ! a))
               \<inter> set (thr_messages (emitFrom ?sm w 0 0 ! b)) = {}"
    if "a < b" "b < length (emitFrom ?sm w 0 0)" for a b
    using distinct_concat_disjoint[OF d, of a b] that by simp
  show ?thesis unfolding dt using each disj False by blast
qed

theorem detectThreads_disjoint_threads_witness:
  "distinct (map msg_id chatTwoBursts)
   \<and> map thr_messages (detectThreads chatTwoBursts 120)
       = [[''b1'', ''b2'', ''b3''], [''b4'', ''b5'', ''b6'']]
   \<and> hd (detectThreads chatTwoBursts 120) \<in> set (detectThreads chatTwoBursts 120)
   \<and> 3 \<le> messageCount (hd (detectThreads chatTwoBursts 120))
   \<and> 1 \<le> length (participants (hd (detectThreads chatTwoBursts 120)))
   \<and> set (thr_messages (detectThreads chatTwoBursts 120 ! 0))
        \<inter> set (thr_messages (detectThreads chatTwoBursts 120 ! 1)) = {}"
proof -
  have h: "distinct (map msg_id chatTwoBursts)" by code_simp
  have v: "map thr_messages (detectThreads chatTwoBursts 120)
       = [[''b1'', ''b2'', ''b3''], [''b4'', ''b5'', ''b6'']]" by code_simp
  have m: "hd (detectThreads chatTwoBursts 120) \<in> set (detectThreads chatTwoBursts 120)"
    by code_simp
  have l: "(0::nat) < 1 \<and> 1 < length (detectThreads chatTwoBursts 120)" by code_simp
  from detectThreads_disjoint_threads [OF h, of 120] h v m l show ?thesis by blast
qed

text \<open>
  C3, as the code decides it. For a seed at position \<open>i\<close> of the chronologically sorted
  messages, the look-ahead loop examines the positions \<open>i + 1\<close> to \<open>i + 19\<close> (at most 19
  candidates, bounded by position), skips the marked ones, and gathers the unmarked ones
  in order as long as their offset from the seed is at most the window, stopping at the
  first one beyond it. The sorted list is a chronologically ordered rearrangement of the
  input, and every returned thread consists of a seed and the run of messages within the
  window among the 19 positions after it, at most 20 messages in all.
\<close>

theorem detectThreads_lookAhead:
  "threadMessages (gather sm w pre i)
     = map (\<lambda>j. sm ! j)
         (i # takeWhile (\<lambda>j. timeDiffOf (sm ! i) (sm ! j) \<le> w)
                (filter (\<lambda>j. j \<notin> pre) [i + 1 ..< min (length sm) (i + 20)]))
   \<and> sorted (map (\<lambda>p. timestamp (fst p)) (sortWithIndex ms))
   \<and> mset (map fst (sortWithIndex ms)) = mset ms
   \<and> (\<forall>t \<in> set (detectThreads ms w). messageCount t \<le> 20 \<and> (\<exists>i < length ms.
         thr_messages t
           = map (\<lambda>j. msg_id (fst (sortWithIndex ms ! j)))
               (i # takeWhile (\<lambda>j. timeDiffOf (sortWithIndex ms ! i) (sortWithIndex ms ! j) \<le> w)
                      [i + 1 ..< min (length ms) (i + 20)])))"
proof (intro conjI ballI)
  show "threadMessages (gather sm w pre i)
     = map (\<lambda>j. sm ! j)
         (i # takeWhile (\<lambda>j. timeDiffOf (sm ! i) (sm ! j) \<le> w)
                (filter (\<lambda>j. j \<notin> pre) [i + 1 ..< min (length sm) (i + 20)]))"
    by (rule gather_fields(1))
next
  show "sorted (map (\<lambda>p. timestamp (fst p)) (sortWithIndex ms))"
    unfolding sortWithIndex_def sortAscBy_def by (rule sorted_sort_key)
next
  have a: "mset (sortWithIndex ms) = mset (zip ms [0 ..< length ms])"
    by (simp add: sortWithIndex_def sortAscBy_def)
  have z: "map fst (zip ms [0 ..< length ms]) = ms" by simp
  have "mset (map fst (sortWithIndex ms)) = image_mset fst (mset (sortWithIndex ms))"
    by (simp only: mset_map)
  also have "\<dots> = image_mset fst (mset (zip ms [0 ..< length ms]))" by (simp only: a)
  also have "\<dots> = mset (map fst (zip ms [0 ..< length ms]))" by (simp only: mset_map)
  finally show "mset (map fst (sortWithIndex ms)) = mset ms" by (simp only: z)
next
  fix t assume t: "t \<in> set (detectThreads ms w)"
  let ?sm = "sortWithIndex ms"
  from t have "t \<in> set (emitFrom ?sm w 0 0)"
    by (cases "length ms < 3") (simp_all add: detectThreads_emitFrom)
  from emitFrom_member[OF this] obtain s c' where
    s: "s < length ?sm" and tt: "t = threadOf ?sm c' (groupAt ?sm w s)" by blast
  have "messageCount t = length (groupAt ?sm w s)" by (simp add: tt threadOf_def)
  then show "messageCount t \<le> 20" using groupAt_bounds(2)[OF s, of w] by simp
next
  fix t assume t: "t \<in> set (detectThreads ms w)"
  let ?sm = "sortWithIndex ms"
  from t have "t \<in> set (emitFrom ?sm w 0 0)"
    by (cases "length ms < 3") (simp_all add: detectThreads_emitFrom)
  from emitFrom_member[OF this] obtain s c' where
    s: "s < length ?sm" and tt: "t = threadOf ?sm c' (groupAt ?sm w s)" by blast
  have "thr_messages t
           = map (\<lambda>j. msg_id (fst (?sm ! j)))
               (s # takeWhile (\<lambda>j. timeDiffOf (?sm ! s) (?sm ! j) \<le> w)
                      [s + 1 ..< min (length ms) (s + 20)])"
    by (simp add: tt threadOf_def groupAt_def sortWithIndex_length)
  moreover have "s < length ms" using s by (simp add: sortWithIndex_length)
  ultimately show "\<exists>i < length ms.
         thr_messages t
           = map (\<lambda>j. msg_id (fst (?sm ! j)))
               (i # takeWhile (\<lambda>j. timeDiffOf (?sm ! i) (?sm ! j) \<le> w)
                      [i + 1 ..< min (length ms) (i + 20)])"
    by blast
qed

theorem detectThreads_lookAhead_witness:
  "hd (detectThreads chatCarl 120) \<in> set (detectThreads chatCarl 120)
   \<and> messageCount (hd (detectThreads chatCarl 120)) \<le> 20
   \<and> (\<exists>i < length chatCarl.
         thr_messages (hd (detectThreads chatCarl 120))
           = map (\<lambda>j. msg_id (fst (sortWithIndex chatCarl ! j)))
               (i # takeWhile (\<lambda>j. timeDiffOf (sortWithIndex chatCarl ! i)
                                      (sortWithIndex chatCarl ! j) \<le> 120)
                      [i + 1 ..< min (length chatCarl) (i + 20)]))
   \<and> map thr_messages (detectThreads chatCarl 120) = [[''c1'', ''c2'', ''c3'']]
   \<and> map participants (detectThreads chatCarl 120) = [[''Carl'']]"
proof -
  have h: "hd (detectThreads chatCarl 120) \<in> set (detectThreads chatCarl 120)" by code_simp
  have v1: "map thr_messages (detectThreads chatCarl 120) = [[''c1'', ''c2'', ''c3'']]"
    by code_simp
  have v2: "map participants (detectThreads chatCarl 120) = [[''Carl'']]" by code_simp
  note all = detectThreads_lookAhead [of "[]" 120 "{}" 0 chatCarl]
  note e = bspec [OF conjunct2 [OF conjunct2 [OF conjunct2 [OF all]]] h]
  from h conjunct1 [OF e] conjunct2 [OF e] v1 v2 show ?thesis by (intro conjI)
qed

text \<open>
  The claim as written gives a seed up to 20 look-ahead candidates. \<open>chatBurst\<close> holds 21
  messages within 20 seconds; the thread seeded by the first one has 20 members, and the
  last message, the twentieth after the seed, is in no thread.
\<close>

theorem detectThreads_budget_counterexample:
  "length chatBurst = 21
   \<and> timestamp (last chatBurst) - timestamp (hd chatBurst) = 20000
   \<and> map messageCount (detectThreads chatBurst 120) = [20]
   \<and> msg_id (last chatBurst) \<notin> set (concat (map thr_messages (detectThreads chatBurst 120)))"
  by code_simp

text \<open>
  C2. A seed whose group stays below three messages emits no thread, and the claim leaves
  the gathered messages unmarked. On \<open>chatLost\<close> the first seed gathers only the message
  at position 1; no thread is emitted, yet position 1 is marked, so the whole chat yields
  no thread, although its last three messages alone form one.
\<close>

theorem detectThreads_marks_unemitted_group:
  "threads (seedStep (sortWithIndex chatLost) 120
              \<lparr> threads = [], processed = {}, threadCounter = 0 \<rparr> 0) = []
   \<and> processed (seedStep (sortWithIndex chatLost) 120
              \<lparr> threads = [], processed = {}, threadCounter = 0 \<rparr> 0) = {1}
   \<and> detectThreads chatLost 120 = []
   \<and> map thr_messages (detectThreads (tl chatLost) 120) = [[''b'', ''c'', ''d'']]"
  by code_simp

end
